theory Spec2Isabelle
  imports Complex_Main "HOL-Library.Stream"
begin

section \<open>Replay buffers of \<^verbatim>\<open>maddpg/replay_buffer.py\<close>\<close>

text \<open>
  The theory embeds the classes \<^verbatim>\<open>ReplayBuffer\<close> and \<^verbatim>\<open>PrioritizedReplayBuffer\<close>;
  the class \<^verbatim>\<open>MultiAgentReplayBuffer\<close> of the same file is not part of it.
  Conventions of the embedding:
  \<^item> an observation and an action are opaque values of the type variables \<open>'o\<close> and \<open>'a\<close>
    (one row of the numpy array each); the device is not modelled;
  \<^item> float32 and float64 numbers are real numbers: rounding, overflow and NaN are outside
    the model;
  \<^item> every exception of the source is a value of \<open>error\<close>; a method that mutates
    the buffer returns the buffer as the exception leaves it;
  \<^item> the global numpy generator is the stream of its future uniform draws from \<open>[0, 1)\<close>.
\<close>

subsection \<open>Errors and numpy helpers\<close>

datatype error =
    AssertionError
  | IndexError
  | ValueError
  | ZeroDivisionError
  | IndexOutOfRange
  | ComplexResult

text \<open>\<^verbatim>\<open>np.copyto(arr[i], v)\<close> for a cursor \<open>i \<ge> 0\<close>: row \<open>i\<close> must exist.\<close>

definition copyto :: "'x list \<Rightarrow> nat \<Rightarrow> 'x \<Rightarrow> error + 'x list" where
  "copyto arr i v = (if i < length arr then Inr (arr[i := v]) else Inl IndexError)"

text \<open>
  Index of numpy into an axis of length \<open>len\<close>: \<open>j\<close> is legal when \<open>- len \<le> j < len\<close>,
  and a negative \<open>j\<close> counts from the end.
\<close>

definition np_ok :: "nat \<Rightarrow> int \<Rightarrow> bool" where
  "np_ok len j \<longleftrightarrow> - int len \<le> j \<and> j < int len"

definition np_pos :: "nat \<Rightarrow> int \<Rightarrow> nat" where
  "np_pos len j = (if j < 0 then nat (j + int len) else nat j)"

text \<open>\<^verbatim>\<open>arr[js]\<close> with an integer array \<open>js\<close>: a copy of the selected rows, or IndexError.\<close>

definition np_take :: "'x list \<Rightarrow> int list \<Rightarrow> error + 'x list" where
  "np_take arr js =
     (if list_all (np_ok (length arr)) js
      then Inr (map (\<lambda>j. arr ! np_pos (length arr) j) js)
      else Inl IndexError)"

text \<open>\<^verbatim>\<open>idxs.max()\<close>: ValueError on an empty array.\<close>

definition np_max :: "int list \<Rightarrow> error + int" where
  "np_max js = (case js of [] \<Rightarrow> Inl ValueError | j # js' \<Rightarrow> Inr (fold max js' j))"

subsection \<open>ReplayBuffer\<close>

record ('o, 'a) replay_buffer =
  capacity :: nat
  obses :: "'o list"
  next_obses :: "'o list"
  actions :: "'a list"
  rewards :: "real list"
  not_dones :: "real list"
  idx :: nat
  full :: bool

text \<open>
  \<^verbatim>\<open>__init__\<close>: \<^verbatim>\<open>np.empty\<close> leaves the rows uninitialised; the model takes the
  filler values as parameters.
\<close>

definition ReplayBuffer_init :: "nat \<Rightarrow> 'o \<Rightarrow> 'a \<Rightarrow> real \<Rightarrow> ('o, 'a) replay_buffer" where
  "ReplayBuffer_init cap o0 a0 r0 =
     \<lparr> capacity = cap, obses = replicate cap o0, next_obses = replicate cap o0,
       actions = replicate cap a0, rewards = replicate cap r0,
       not_dones = replicate cap r0, idx = 0, full = False \<rparr>"

text \<open>\<^verbatim>\<open>__len__\<close>\<close>

definition len :: "('o, 'a, 'z) replay_buffer_scheme \<Rightarrow> nat" where
  "len st = (if full st then capacity st else idx st)"

text \<open>
  \<^verbatim>\<open>ReplayBuffer.add\<close>: five writes at the cursor, then the cursor and the flag.
  \<^verbatim>\<open>not done\<close> is stored as the float 1.0 or 0.0.
\<close>

definition add ::
  "('o, 'a, 'z) replay_buffer_scheme \<Rightarrow> 'o \<Rightarrow> 'a \<Rightarrow> real \<Rightarrow> 'o \<Rightarrow> bool
     \<Rightarrow> error option \<times> ('o, 'a, 'z) replay_buffer_scheme" where
  "add st obs action reward next_obs done =
     (case copyto (obses st) (idx st) obs of Inl e \<Rightarrow> (Some e, st) | Inr a1 \<Rightarrow>
      (let st = st\<lparr>obses := a1\<rparr> in
      (case copyto (actions st) (idx st) action of Inl e \<Rightarrow> (Some e, st) | Inr a2 \<Rightarrow>
      (let st = st\<lparr>actions := a2\<rparr> in
      (case copyto (rewards st) (idx st) reward of Inl e \<Rightarrow> (Some e, st) | Inr a3 \<Rightarrow>
      (let st = st\<lparr>rewards := a3\<rparr> in
      (case copyto (next_obses st) (idx st) next_obs of Inl e \<Rightarrow> (Some e, st) | Inr a4 \<Rightarrow>
      (let st = st\<lparr>next_obses := a4\<rparr> in
      (case copyto (not_dones st) (idx st) (if done then 0 else 1) of
         Inl e \<Rightarrow> (Some e, st)
       | Inr a5 \<Rightarrow>
      (let st = st\<lparr>not_dones := a5\<rparr> in
       if capacity st = 0 then (Some ZeroDivisionError, st)
       else
         let st = st\<lparr>idx := (idx st + 1) mod capacity st\<rparr> in
         (None, st\<lparr>full := full st \<or> idx st = 0\<rparr>)))))))))))"

text \<open>
  The loop of \<^verbatim>\<open>fetch\<close> over \<^verbatim>\<open>range(n)\<close>, on the whole batch at once as in the
  source: \<open>rs\<close> is \<^verbatim>\<open>rewards\<close>, \<open>nds\<close> is \<^verbatim>\<open>not_dones\<close>, \<open>ks\<close> the remaining values of
  \<^verbatim>\<open>i\<close>.
\<close>

fun fetch_loop ::
  "('o, 'a, 'z) replay_buffer_scheme \<Rightarrow> int list \<Rightarrow> real \<Rightarrow> nat list \<Rightarrow> real list \<Rightarrow> real list
     \<Rightarrow> error + (real list \<times> real list)" where
  "fetch_loop st idxs discount [] rs nds = Inr (rs, nds)"
| "fetch_loop st idxs discount (i # ks) rs nds =
     (case np_take (rewards st) (map (\<lambda>j. j + int i) idxs) of Inl e \<Rightarrow> Inl e | Inr rw \<Rightarrow>
      (let rs' = map2 (+) rs (map2 (*) (map ((*) (discount ^ i)) nds) (map sgn rw)) in
      (case np_take (not_dones st) (map (\<lambda>j. j + int i) idxs) of Inl e \<Rightarrow> Inl e | Inr nd \<Rightarrow>
       fetch_loop st idxs discount ks rs' (map2 min nds nd))))"

text \<open>
  \<^verbatim>\<open>fetch\<close>. The result is \<open>(obses, actions, rewards, next_obses, not_dones)\<close>, one entry
  per index. \<^verbatim>\<open>range(n)\<close> is empty for \<open>n \<le> 0\<close>.
\<close>

definition fetch ::
  "('o, 'a, 'z) replay_buffer_scheme \<Rightarrow> int list \<Rightarrow> real \<Rightarrow> int
     \<Rightarrow> error + ('o list \<times> 'a list \<times> real list \<times> 'o list \<times> real list)" where
  "fetch st idxs discount n =
     (case np_max idxs of Inl e \<Rightarrow> Inl e | Inr m \<Rightarrow>
      if \<not> m + n \<le> int (len st) then Inl AssertionError
      else
        (case np_take (obses st) idxs of Inl e \<Rightarrow> Inl e | Inr ob \<Rightarrow>
        (case np_take (next_obses st) (map (\<lambda>j. j + n - 1) idxs) of Inl e \<Rightarrow> Inl e | Inr nob \<Rightarrow>
        (case np_take (actions st) idxs of Inl e \<Rightarrow> Inl e | Inr ac \<Rightarrow>
        (case fetch_loop st idxs discount [0 ..< nat n]
                (replicate (length idxs) 0) (replicate (length idxs) 1) of
           Inl e \<Rightarrow> Inl e
         | Inr (rs, nds) \<Rightarrow> Inr (ob, ac, rs, nob, nds))))))"

text \<open>
  \<^verbatim>\<open>np.random.randint(0, high, size)\<close> on the stream of uniform draws: an empty
  request returns the empty array before the bounds are looked at; otherwise
  \<open>high \<le> 0\<close> is the ValueError "low >= high", and each entry is one draw \<open>u\<close> scaled
  to \<open>\<lfloor>u * high\<rfloor>\<close>.
\<close>

definition np_randint :: "int \<Rightarrow> nat \<Rightarrow> real stream \<Rightarrow> (error + int list) \<times> real stream" where
  "np_randint high count g =
     (if count = 0 then (Inr [], g)
      else if high \<le> 0 then (Inl ValueError, g)
      else (Inr (map (\<lambda>u. \<lfloor>u * real_of_int high\<rfloor>) (stake count g)), sdrop count g))"

text \<open>
  \<^verbatim>\<open>ReplayBuffer.sample_idxs\<close>. The samplers return the outcome together with the
  generator as the call leaves it.
\<close>

definition sample_idxs ::
  "('o, 'a, 'z) replay_buffer_scheme \<Rightarrow> nat \<Rightarrow> int \<Rightarrow> real stream
     \<Rightarrow> (error + int list) \<times> real stream" where
  "sample_idxs st batch_size n g =
     (let last_idx = int (if full st then capacity st else idx st) - (n - 1)
      in np_randint last_idx batch_size g)"

text \<open>\<^verbatim>\<open>ReplayBuffer.sample_multistep\<close>; the assertion reads \<^verbatim>\<open>(n <= self.idx) or self.full\<close>.\<close>

definition sample_multistep ::
  "('o, 'a, 'z) replay_buffer_scheme \<Rightarrow> nat \<Rightarrow> real \<Rightarrow> int \<Rightarrow> real stream
     \<Rightarrow> (error + ('o list \<times> 'a list \<times> real list \<times> 'o list \<times> real list)) \<times> real stream" where
  "sample_multistep st batch_size discount n g =
     (if \<not> (n \<le> int (idx st) \<or> full st) then (Inl AssertionError, g)
      else
        (case sample_idxs st batch_size n g of
           (Inl e, g') \<Rightarrow> (Inl e, g')
         | (Inr idxs, g') \<Rightarrow> (fetch st idxs discount n, g')))"

subsection \<open>The segment trees\<close>

text \<open>
  Modelled from the spec: the module \<^verbatim>\<open>segment_tree\<close> (\<^verbatim>\<open>SumSegmentTree\<close>,
  \<^verbatim>\<open>MinSegmentTree\<close>) is imported by the source and is not among the source files. A tree
  is represented by the list of its \<open>T\<close> leaves: the spec makes every inner node the
  reduction of its descendants, so the leaves determine the tree. All leaves start at the
  neutral element (0 for the sum, \<open>+\<infinity>\<close> for the minimum); reading, writing or querying
  outside \<open>[0, T)\<close> fails with IndexOutOfRange; range queries are inclusive.
\<close>

datatype xreal = Fin real | PInf

fun xmin :: "xreal \<Rightarrow> xreal \<Rightarrow> xreal" where
  "xmin PInf y = y"
| "xmin x PInf = x"
| "xmin (Fin a) (Fin b) = Fin (min a b)"

definition SegmentTree_init :: "nat \<Rightarrow> 'v \<Rightarrow> 'v list" where
  "SegmentTree_init T neutral = replicate T neutral"

text \<open>Modelled from the spec: \<^verbatim>\<open>tree[i] = v\<close>, the point update.\<close>

definition tree_set :: "'v list \<Rightarrow> int \<Rightarrow> 'v \<Rightarrow> error + 'v list" where
  "tree_set leaves i v =
     (if 0 \<le> i \<and> i < int (length leaves) then Inr (leaves[nat i := v])
      else Inl IndexOutOfRange)"

text \<open>Modelled from the spec: \<^verbatim>\<open>tree[i]\<close>, the leaf.\<close>

definition tree_get :: "'v list \<Rightarrow> int \<Rightarrow> error + 'v" where
  "tree_get leaves i =
     (if 0 \<le> i \<and> i < int (length leaves) then Inr (leaves ! nat i)
      else Inl IndexOutOfRange)"

text \<open>Modelled from the spec: \<^verbatim>\<open>sum(lo, hi)\<close>, the sum of the leaves \<open>lo, ..., hi\<close>.\<close>

definition tree_sum :: "real list \<Rightarrow> int \<Rightarrow> int \<Rightarrow> error + real" where
  "tree_sum leaves lo hi =
     (if 0 \<le> lo \<and> lo < int (length leaves) \<and> 0 \<le> hi \<and> hi < int (length leaves)
      then Inr (sum_list (take (nat (hi + 1 - lo)) (drop (nat lo) leaves)))
      else Inl IndexOutOfRange)"

text \<open>Modelled from the spec: \<^verbatim>\<open>sum()\<close> and \<^verbatim>\<open>min()\<close> over all leaves.\<close>

definition tree_sum_all :: "real list \<Rightarrow> real" where
  "tree_sum_all leaves = sum_list leaves"

definition tree_min_all :: "xreal list \<Rightarrow> xreal" where
  "tree_min_all leaves = fold xmin leaves PInf"

text \<open>
  Modelled from the spec: \<^verbatim>\<open>find_prefixsum_idx(mass)\<close>, the walk from the root: into the
  left half if \<open>mass\<close> is below the left subtree's sum, otherwise the left sum is
  subtracted and the walk goes right. The spec asks for \<open>0 \<le> mass < sum()\<close> and does not
  say what happens otherwise; the walk is defined for every mass.
\<close>

function find_prefixsum_idx :: "real list \<Rightarrow> real \<Rightarrow> nat" where
  "find_prefixsum_idx leaves mass =
     (if length leaves \<le> 1 then 0
      else
        let h = length leaves div 2; left = sum_list (take h leaves) in
        if mass < left then find_prefixsum_idx (take h leaves) mass
        else h + find_prefixsum_idx (drop h leaves) (mass - left))"
  by pat_completeness auto
termination
  by (relation "measure (\<lambda>(leaves, mass). length leaves)") auto

declare find_prefixsum_idx.simps [simp del]

subsection \<open>PrioritizedReplayBuffer\<close>

record ('o, 'a) prioritized_replay_buffer = "('o, 'a) replay_buffer" +
  alpha :: real
  sum_tree :: "real list"
  min_tree :: "xreal list"
  max_priority :: real

text \<open>
  \<^verbatim>\<open>x ** a\<close> on floats. A positive base gives \<open>x powr a\<close>; base 0 gives 1 for \<open>a = 0\<close>,
  0 for \<open>a > 0\<close> and ZeroDivisionError for \<open>a < 0\<close>. A negative base gives a complex
  number in Python unless \<open>a\<close> is integral; no base of the buffer is negative (priorities
  are asserted positive, \<^verbatim>\<open>max_priority\<close> starts at 1 and only grows), and the model
  reports that case as the error \<open>ComplexResult\<close>.
\<close>

definition py_pow :: "real \<Rightarrow> real \<Rightarrow> error + real" where
  "py_pow x a =
     (if 0 < x then Inr (x powr a)
      else if x = 0 then
        (if a < 0 then Inl ZeroDivisionError else Inr (if a = 0 then 1 else 0))
      else Inl ComplexResult)"

text \<open>The loop \<^verbatim>\<open>while tree_capacity < capacity: tree_capacity *= 2\<close>.\<close>

partial_function (option) tree_capacity_loop :: "nat \<Rightarrow> nat \<Rightarrow> nat option" where
  "tree_capacity_loop tree_capacity cap =
     (if tree_capacity < cap then tree_capacity_loop (tree_capacity * 2) cap
      else Some tree_capacity)"

text \<open>\<^verbatim>\<open>PrioritizedReplayBuffer.__init__\<close>; \<open>None\<close> is the loop not ending.\<close>

definition PrioritizedReplayBuffer_init ::
  "nat \<Rightarrow> real \<Rightarrow> 'o \<Rightarrow> 'a \<Rightarrow> real \<Rightarrow> (error + ('o, 'a) prioritized_replay_buffer) option" where
  "PrioritizedReplayBuffer_init cap al o0 a0 r0 =
     (if \<not> al \<ge> 0 then Some (Inl AssertionError)
      else
        (case tree_capacity_loop 1 cap of None \<Rightarrow> None
         | Some T \<Rightarrow>
            Some (Inr (replay_buffer.extend (ReplayBuffer_init cap o0 a0 r0)
              \<lparr> alpha = al, sum_tree = SegmentTree_init T 0,
                min_tree = SegmentTree_init T PInf, max_priority = 1 \<rparr>))))"

text \<open>
  \<^verbatim>\<open>PrioritizedReplayBuffer.add\<close>: the inherited \<open>add\<close> first, which moves the cursor;
  the two leaves are then written at \<^verbatim>\<open>self.idx\<close>, the cursor after the move.
\<close>

definition add_p ::
  "('o, 'a, 'z) prioritized_replay_buffer_scheme \<Rightarrow> 'o \<Rightarrow> 'a \<Rightarrow> real \<Rightarrow> 'o \<Rightarrow> bool
     \<Rightarrow> error option \<times> ('o, 'a, 'z) prioritized_replay_buffer_scheme" where
  "add_p st obs action reward next_obs done =
     (case add st obs action reward next_obs done of
        (Some e, st1) \<Rightarrow> (Some e, st1)
      | (None, st1) \<Rightarrow>
          (case py_pow (max_priority st1) (alpha st1) of Inl e \<Rightarrow> (Some e, st1) | Inr p \<Rightarrow>
          (case tree_set (sum_tree st1) (int (idx st1)) p of
             Inl e \<Rightarrow> (Some e, st1)
           | Inr t1 \<Rightarrow>
              let st2 = st1\<lparr>sum_tree := t1\<rparr> in
              (case py_pow (max_priority st2) (alpha st2) of Inl e \<Rightarrow> (Some e, st2) | Inr q \<Rightarrow>
              (case tree_set (min_tree st2) (int (idx st2)) (Fin q) of
                 Inl e \<Rightarrow> (Some e, st2)
               | Inr t2 \<Rightarrow> (None, st2\<lparr>min_tree := t2\<rparr>))))))"

text \<open>
  The \<^verbatim>\<open>while True\<close> loop of \<^verbatim>\<open>PrioritizedReplayBuffer.sample_idxs\<close> for band \<open>i\<close>:
  one draw, the lookup, and a new draw when the index is too close to the end.
  \<open>None\<close> is the loop running forever.
\<close>

partial_function (option) draw_band ::
  "('o, 'a, 'z) prioritized_replay_buffer_scheme \<Rightarrow> real \<Rightarrow> nat \<Rightarrow> int \<Rightarrow> real stream
     \<Rightarrow> (nat \<times> real stream) option" where
  "draw_band st every_range_len i n g =
     (let mass = shd g * every_range_len + real i * every_range_len;
          ix = find_prefixsum_idx (sum_tree st) mass
      in if int ix + n \<le> int (len st) then Some (ix, stl g)
         else draw_band st every_range_len i n (stl g))"

text \<open>The loop \<^verbatim>\<open>for i in range(batch_size)\<close>; \<open>idxs\<close> is the list built so far.\<close>

fun sample_idxs_loop ::
  "('o, 'a, 'z) prioritized_replay_buffer_scheme \<Rightarrow> real \<Rightarrow> int \<Rightarrow> nat list \<Rightarrow> nat list
     \<Rightarrow> real stream \<Rightarrow> (nat list \<times> real stream) option" where
  "sample_idxs_loop st every_range_len n [] idxs g = Some (idxs, g)"
| "sample_idxs_loop st every_range_len n (i # ks) idxs g =
     (case draw_band st every_range_len i n g of
        None \<Rightarrow> None
      | Some (ix, g') \<Rightarrow> sample_idxs_loop st every_range_len n ks (idxs @ [ix]) g')"

text \<open>
  \<^verbatim>\<open>PrioritizedReplayBuffer.sample_idxs\<close>. \<^verbatim>\<open>p_total / batch_size\<close> divides the sum
  the tree returns by an integer. For \<open>batch_size = 0\<close> that is ZeroDivisionError when the
  sum is a Python float, and \<open>inf\<close> or \<open>nan\<close> with a warning when it is a numpy scalar (leaves
  written from the numpy priorities of \<^verbatim>\<open>update_priorities\<close>); the loop then does not run
  and the empty array is returned. The reals of the embedding do not tell the two kinds of
  float apart, and the tree that returns the sum is not among the sources: \<open>np_sum\<close> says
  whether the sum is a numpy scalar. For \<open>batch_size > 0\<close> it plays no role.
\<close>

definition sample_idxs_p ::
  "bool \<Rightarrow> ('o, 'a, 'z) prioritized_replay_buffer_scheme \<Rightarrow> nat \<Rightarrow> int \<Rightarrow> real stream
     \<Rightarrow> ((error + nat list) \<times> real stream) option" where
  "sample_idxs_p np_sum st batch_size n g =
     (case tree_sum (sum_tree st) 0 (int (len st) - n - 1) of
        Inl e \<Rightarrow> Some (Inl e, g)
      | Inr p_total \<Rightarrow>
          if batch_size = 0 \<and> \<not> np_sum then Some (Inl ZeroDivisionError, g)
          else
            (case sample_idxs_loop st (p_total / real batch_size) n [0 ..< batch_size] [] g of
               None \<Rightarrow> None
             | Some (idxs, g') \<Rightarrow> Some (Inr idxs, g')))"

text \<open>
  \<^verbatim>\<open>p_min = self.min_tree.min() / self.sum_tree.sum()\<close>. With an infinite minimum every
  path of the source ends in an exception (the division by a zero sum here, the division
  by a zero \<^verbatim>\<open>max_weight\<close> at the first weight, or \<^verbatim>\<open>fetch\<close> on an empty batch); the
  model raises ZeroDivisionError at once.
\<close>

definition p_min_of :: "xreal \<Rightarrow> real \<Rightarrow> error + real" where
  "p_min_of m p_sum =
     (case m of PInf \<Rightarrow> Inl ZeroDivisionError
      | Fin v \<Rightarrow> if p_sum = 0 then Inl ZeroDivisionError else Inr (v / p_sum))"

text \<open>The loop \<^verbatim>\<open>for idx in idxs\<close> of \<^verbatim>\<open>sample_multistep\<close>; \<open>ws\<close> is \<^verbatim>\<open>weights\<close>.\<close>

fun weights_loop ::
  "('o, 'a, 'z) prioritized_replay_buffer_scheme \<Rightarrow> real \<Rightarrow> real \<Rightarrow> nat list \<Rightarrow> real list
     \<Rightarrow> error + real list" where
  "weights_loop st beta max_weight [] ws = Inr ws"
| "weights_loop st beta max_weight (ix # rest) ws =
     (case tree_get (sum_tree st) (int ix) of Inl e \<Rightarrow> Inl e | Inr v \<Rightarrow>
      if tree_sum_all (sum_tree st) = 0 then Inl ZeroDivisionError
      else
        (let p_sample = v / tree_sum_all (sum_tree st) in
        (case py_pow (p_sample * real (len st)) (- beta) of Inl e \<Rightarrow> Inl e | Inr weight \<Rightarrow>
         if max_weight = 0 then Inl ZeroDivisionError
         else weights_loop st beta max_weight rest (ws @ [weight / max_weight]))))"

text \<open>
  \<^verbatim>\<open>PrioritizedReplayBuffer.sample_multistep\<close>. The result is the batch of \<open>fetch\<close>, the
  weights and the indices.
\<close>

definition sample_multistep_p ::
  "bool \<Rightarrow> ('o, 'a, 'z) prioritized_replay_buffer_scheme \<Rightarrow> nat \<Rightarrow> real \<Rightarrow> real \<Rightarrow> int
     \<Rightarrow> real stream
     \<Rightarrow> ((error + (('o list \<times> 'a list \<times> real list \<times> 'o list \<times> real list)
            \<times> real list \<times> nat list)) \<times> real stream) option" where
  "sample_multistep_p np_sum st batch_size beta discount n g =
     (if \<not> (n \<le> int (idx st) \<or> full st) then Some (Inl AssertionError, g)
      else if \<not> beta > 0 then Some (Inl AssertionError, g)
      else
        (case sample_idxs_p np_sum st batch_size n g of
           None \<Rightarrow> None
         | Some (Inl e, g') \<Rightarrow> Some (Inl e, g')
         | Some (Inr idxs, g') \<Rightarrow>
            Some
             (case p_min_of (tree_min_all (min_tree st)) (tree_sum_all (sum_tree st)) of
                Inl e \<Rightarrow> Inl e
              | Inr p_min \<Rightarrow>
                 (case py_pow (p_min * real (len st)) (- beta) of Inl e \<Rightarrow> Inl e
                  | Inr max_weight \<Rightarrow>
                     (case weights_loop st beta max_weight idxs [] of Inl e \<Rightarrow> Inl e
                      | Inr weights \<Rightarrow>
                         (case fetch st (map int idxs) discount n of Inl e \<Rightarrow> Inl e
                          | Inr sample \<Rightarrow> Inr (sample, weights, idxs)))),
              g')))"

text \<open>The loop of \<^verbatim>\<open>update_priorities\<close> over \<^verbatim>\<open>zip(idxs, prios)\<close>.\<close>

fun update_loop ::
  "('o, 'a, 'z) prioritized_replay_buffer_scheme \<Rightarrow> (int \<times> real) list
     \<Rightarrow> error option \<times> ('o, 'a, 'z) prioritized_replay_buffer_scheme" where
  "update_loop st [] = (None, st)"
| "update_loop st ((ix, prio) # rest) =
     (if \<not> prio > 0 then (Some AssertionError, st)
      else if \<not> (0 \<le> ix \<and> ix < int (len st)) then (Some AssertionError, st)
      else
        (case py_pow prio (alpha st) of Inl e \<Rightarrow> (Some e, st) | Inr p \<Rightarrow>
        (case tree_set (sum_tree st) ix p of Inl e \<Rightarrow> (Some e, st) | Inr t1 \<Rightarrow>
        (let st1 = st\<lparr>sum_tree := t1\<rparr> in
        (case py_pow prio (alpha st1) of Inl e \<Rightarrow> (Some e, st1) | Inr q \<Rightarrow>
        (case tree_set (min_tree st1) ix (Fin q) of Inl e \<Rightarrow> (Some e, st1) | Inr t2 \<Rightarrow>
         update_loop (st1\<lparr>min_tree := t2, max_priority := max (max_priority st1) prio\<rparr>)
           rest))))))"

text \<open>\<^verbatim>\<open>PrioritizedReplayBuffer.update_priorities\<close>\<close>

definition update_priorities ::
  "('o, 'a, 'z) prioritized_replay_buffer_scheme \<Rightarrow> int list \<Rightarrow> real list
     \<Rightarrow> error option \<times> ('o, 'a, 'z) prioritized_replay_buffer_scheme" where
  "update_priorities st idxs prios =
     (if length idxs \<noteq> length prios then (Some AssertionError, st)
      else update_loop st (zip idxs prios))"

subsection \<open>Invariants and call sequences\<close>

text \<open>
  The shape \<^verbatim>\<open>__init__\<close> gives a buffer and \<open>add\<close> keeps: five columns of \<open>capacity\<close>
  rows, the cursor below \<open>capacity\<close>.
\<close>

definition buffer_ok :: "('o, 'a, 'z) replay_buffer_scheme \<Rightarrow> bool" where
  "buffer_ok st \<longleftrightarrow> 0 < capacity st \<and> idx st < capacity st \<and>
     length (obses st) = capacity st \<and> length (next_obses st) = capacity st \<and>
     length (actions st) = capacity st \<and> length (rewards st) = capacity st \<and>
     length (not_dones st) = capacity st"

type_synonym ('o, 'a) transition = "'o \<times> 'a \<times> real \<times> 'o \<times> bool"

text \<open>A sequence of \<^verbatim>\<open>add\<close> calls, one per transition, stopping at the first exception.\<close>

fun add_all ::
  "('o, 'a, 'z) replay_buffer_scheme \<Rightarrow> ('o, 'a) transition list
     \<Rightarrow> error option \<times> ('o, 'a, 'z) replay_buffer_scheme" where
  "add_all st [] = (None, st)"
| "add_all st ((ob, ac, rw, nob, dn) # ts) =
     (case add st ob ac rw nob dn of
        (Some e, st') \<Rightarrow> (Some e, st')
      | (None, st') \<Rightarrow> add_all st' ts)"

text \<open>Slot \<open>j\<close> of the five columns, and the row a transition is stored as.\<close>

definition row :: "('o, 'a, 'z) replay_buffer_scheme \<Rightarrow> nat \<Rightarrow> 'o \<times> 'a \<times> real \<times> 'o \<times> real" where
  "row st j = (obses st ! j, actions st ! j, rewards st ! j, next_obses st ! j, not_dones st ! j)"

definition stored :: "('o, 'a) transition \<Rightarrow> 'o \<times> 'a \<times> real \<times> 'o \<times> real" where
  "stored t = (case t of (ob, ac, rw, nob, dn) \<Rightarrow> (ob, ac, rw, nob, if dn then 0 else 1))"

text \<open>The same sequence through \<^verbatim>\<open>PrioritizedReplayBuffer.add\<close>.\<close>

fun add_all_p ::
  "('o, 'a, 'z) prioritized_replay_buffer_scheme \<Rightarrow> ('o, 'a) transition list
     \<Rightarrow> error option \<times> ('o, 'a, 'z) prioritized_replay_buffer_scheme" where
  "add_all_p st [] = (None, st)"
| "add_all_p st ((ob, ac, rw, nob, dn) # ts) =
     (case add_p st ob ac rw nob dn of
        (Some e, st') \<Rightarrow> (Some e, st')
      | (None, st') \<Rightarrow> add_all_p st' ts)"

text \<open>
  What \<^verbatim>\<open>__init__\<close> gives a prioritized buffer and its methods keep: the two trees have
  the same number of leaves, at least \<open>capacity\<close>; \<^verbatim>\<open>max_priority\<close> is at least 1; a leaf
  is either untouched in both trees (0 and \<open>+\<infinity>\<close>) or holds the same positive value in both.
\<close>

definition leaf_sync :: "real \<Rightarrow> xreal \<Rightarrow> bool" where
  "leaf_sync s m \<longleftrightarrow> (s = 0 \<and> m = PInf) \<or> (0 < s \<and> m = Fin s)"

definition prb_ok :: "('o, 'a, 'z) prioritized_replay_buffer_scheme \<Rightarrow> bool" where
  "prb_ok st \<longleftrightarrow> buffer_ok st \<and> capacity st \<le> length (sum_tree st) \<and>
     length (min_tree st) = length (sum_tree st) \<and> 1 \<le> max_priority st \<and>
     list_all2 leaf_sync (sum_tree st) (min_tree st)"

text \<open>
  The leaves the class has written are positive: \<^verbatim>\<open>add\<close> writes the leaf at the cursor
  after the move, so before the buffer is full these are the leaves \<open>1, \<dots>, idx\<close>, and from
  the wrap of the cursor on all leaves below \<open>capacity\<close>; \<^verbatim>\<open>update_priorities\<close> writes
  positive values only.
\<close>

definition leaves_written :: "('o, 'a, 'z) prioritized_replay_buffer_scheme \<Rightarrow> bool" where
  "leaves_written st \<longleftrightarrow>
     list_all (\<lambda>i. 0 < sum_tree st ! i)
       (if full st then [0 ..< capacity st] else [1 ..< Suc (idx st)])"

text \<open>
  The ring after a sequence of adds: \<open>st\<close> is what a sequence \<open>ts\<close> of \<open>k\<close> adds makes of \<open>st0\<close>. The
  transition number \<open>t\<close> of the sequence is written to slot \<open>(idx st0 + t) mod C\<close>; from
  \<open>k \<ge> C\<close> on the last \<open>C\<close> transitions fill all \<open>C\<close> slots.
\<close>

definition ring_after ::
  "('o, 'a, 'z) replay_buffer_scheme \<Rightarrow> ('o, 'a) transition list
     \<Rightarrow> ('o, 'a, 'z) replay_buffer_scheme \<Rightarrow> bool" where
  "ring_after st0 ts st \<longleftrightarrow>
     (let C = capacity st0; k = length ts in
      capacity st = C \<and> len st = (if full st then C else idx st) \<and>
      idx st < C \<and> idx st = (idx st0 + k) mod C \<and>
      (C \<le> k \<longrightarrow> len st = C \<and>
         (\<forall>t \<in> {k - C ..< k}. row st ((idx st0 + t) mod C) = stored (ts ! t)) \<and>
         (\<lambda>t. (idx st0 + t) mod C) ` {k - C ..< k} = {0 ..< C}))"

text \<open>Example buffers (capacity 3, fresh) and four transitions.\<close>

definition ex_buffer :: "(nat, nat) replay_buffer" where
  "ex_buffer = ReplayBuffer_init 3 0 0 0"

definition ex_prb :: "(nat, nat) prioritized_replay_buffer" where
  "ex_prb = replay_buffer.extend (ReplayBuffer_init 3 0 0 0)
     \<lparr> alpha = 1, sum_tree = [0, 0, 0, 0], min_tree = [PInf, PInf, PInf, PInf],
       max_priority = 1 \<rparr>"

definition ex_transitions :: "(nat, nat) transition list" where
  "ex_transitions = [(10, 1, 5, 11, False), (11, 2, -1, 12, False),
     (12, 3, 0, 13, False), (13, 4, 2, 14, True)]"


text \<open>
  The n-step return as the spec words it: \<open>run_not_done nd i k\<close> is the running
  continuation flag before term \<open>k\<close> (1 at the start, then the minimum with each flag
  passed), and the return is the sum of \<open>discount ^ k * running flag * sign (reward)\<close>
  over the window.
\<close>

fun run_not_done :: "real list \<Rightarrow> nat \<Rightarrow> nat \<Rightarrow> real" where
  "run_not_done nd i 0 = 1"
| "run_not_done nd i (Suc k) = min (run_not_done nd i k) (nd ! (i + k))"

definition nstep_return :: "real list \<Rightarrow> real list \<Rightarrow> real \<Rightarrow> nat \<Rightarrow> nat \<Rightarrow> real" where
  "nstep_return rw nd discount n i =
     (\<Sum>k<n. discount ^ k * run_not_done nd i k * sgn (rw ! (i + k)))"

text \<open>The buffer of the spec's n-step scenario: capacity 4, rewards 5, -1, 0, 2, all flags 1.\<close>

definition ex_fetch_buffer :: "(nat, nat) replay_buffer" where
  "ex_fetch_buffer =
     \<lparr> capacity = 4, obses = [10, 11, 12, 13], next_obses = [11, 12, 13, 14],
       actions = [1, 2, 3, 4], rewards = [5, -1, 0, 2],
       not_dones = [1, 1, 1, 1], idx = 0, full = True \<rparr>"

text \<open>A full prioritized buffer over the same columns.\<close>

definition ex_prb_full :: "(nat, nat) prioritized_replay_buffer" where
  "ex_prb_full = replay_buffer.extend ex_fetch_buffer
     \<lparr> alpha = 1, sum_tree = [1, 2, 1, 4], min_tree = [Fin 1, Fin 2, Fin 1, Fin 4],
       max_priority = 4 \<rparr>"

text \<open>
  Calls that change a prioritized buffer, and a sequence of them run by a caller that
  goes on after an exception: \<open>run_calls\<close> returns the outcome of every call and the
  final buffer.
\<close>

datatype ('o, 'a) call =
    Add 'o 'a real 'o bool
  | UpdatePriorities "int list" "real list"

fun exec_call ::
  "('o, 'a) call \<Rightarrow> ('o, 'a, 'z) prioritized_replay_buffer_scheme
     \<Rightarrow> error option \<times> ('o, 'a, 'z) prioritized_replay_buffer_scheme" where
  "exec_call (Add ob ac rw nob dn) st = add_p st ob ac rw nob dn"
| "exec_call (UpdatePriorities idxs prios) st = update_priorities st idxs prios"

fun run_calls ::
  "('o, 'a, 'z) prioritized_replay_buffer_scheme \<Rightarrow> ('o, 'a) call list
     \<Rightarrow> error option list \<times> ('o, 'a, 'z) prioritized_replay_buffer_scheme" where
  "run_calls st [] = ([], st)"
| "run_calls st (c # cs) =
     (fst (exec_call c st) # fst (run_calls (snd (exec_call c st)) cs),
      snd (run_calls (snd (exec_call c st)) cs))"

text \<open>
  One entry of \<^verbatim>\<open>update_priorities\<close>: the two checks of the loop body, and the three
  writes of an entry that passes them.
\<close>

definition entry_ok :: "('o, 'a, 'z) prioritized_replay_buffer_scheme \<Rightarrow> int \<times> real \<Rightarrow> bool" where
  "entry_ok st e \<longleftrightarrow> 0 < snd e \<and> 0 \<le> fst e \<and> fst e < int (len st)"

definition apply_entry ::
  "int \<times> real \<Rightarrow> ('o, 'a, 'z) prioritized_replay_buffer_scheme
     \<Rightarrow> ('o, 'a, 'z) prioritized_replay_buffer_scheme" where
  "apply_entry e st =
     st\<lparr>sum_tree := (sum_tree st)[nat (fst e) := snd e powr alpha st],
        min_tree := (min_tree st)[nat (fst e) := Fin (snd e powr alpha st)],
        max_priority := max (max_priority st) (snd e)\<rparr>"


text \<open>
  The mass \<^verbatim>\<open>np.random.rand() * every_range_len + i * every_range_len\<close> of band \<open>k\<close>
  when the draw is number \<open>j\<close> of the generator \<open>g\<close> and the band width is \<open>w\<close>.
\<close>

definition band_mass :: "real stream \<Rightarrow> real \<Rightarrow> nat \<Rightarrow> nat \<Rightarrow> real" where
  "band_mass g w k j = g !! j * w + real k * w"

text \<open>A generator that always draws one half.\<close>

definition ex_draws :: "real stream" where
  "ex_draws = sconst (1 / 2)"

text \<open>
  The importance-sampling weight as the spec words it:
  \<open>(p_sample * size) ^ (- beta) / (p_min * size) ^ (- beta)\<close> with \<open>p_sample = leaf / sum\<close> and
  \<open>p_min = minimum / sum\<close>.
\<close>

definition is_weight :: "real \<Rightarrow> real \<Rightarrow> real \<Rightarrow> nat \<Rightarrow> real \<Rightarrow> real" where
  "is_weight leaf min_leaf p_sum count beta =
     (leaf / p_sum * real count) powr (- beta) / (min_leaf / p_sum * real count) powr (- beta)"

text \<open>
  Two buffers of the same shape: same size, cursor and flag, columns of the same lengths;
  the stored transitions may differ.
\<close>

definition same_shape ::
  "('o, 'a, 'z) replay_buffer_scheme \<Rightarrow> ('o, 'a, 'y) replay_buffer_scheme \<Rightarrow> bool" where
  "same_shape st1 st2 \<longleftrightarrow> len st1 = len st2 \<and> idx st1 = idx st2 \<and> full st1 = full st2 \<and>
     length (obses st1) = length (obses st2) \<and>
     length (next_obses st1) = length (next_obses st2) \<and>
     length (actions st1) = length (actions st2) \<and>
     length (rewards st1) = length (rewards st2) \<and>
     length (not_dones st1) = length (not_dones st2)"

text \<open>Whether \<open>fetch\<close> raises, and what.\<close>

definition fetch_error :: "('o, 'a, 'z) replay_buffer_scheme \<Rightarrow> int list \<Rightarrow> real \<Rightarrow> int \<Rightarrow> error option" where
  "fetch_error st idxs discount n =
     (case fetch st idxs discount n of Inl e \<Rightarrow> Some e | Inr b \<Rightarrow> None)"

text \<open>
  The indices and the weights in the result of the prioritized \<^verbatim>\<open>sample_multistep\<close>
  (or the exception), and the generator afterwards.
\<close>

definition sampled ::
  "((error + (('o list \<times> 'a list \<times> real list \<times> 'o list \<times> real list) \<times> real list \<times> nat list))
      \<times> real stream) option
   \<Rightarrow> ((error + (nat list \<times> real list)) \<times> real stream) option" where
  "sampled r =
     map_option (\<lambda>(res, g').
       (case res of Inl e \<Rightarrow> Inl e | Inr (sample, weights, idxs) \<Rightarrow> Inr (idxs, weights), g')) r"

text \<open>A second full buffer with the same priorities and other stored transitions.\<close>

definition ex_prb_other :: "(nat, nat) prioritized_replay_buffer" where
  "ex_prb_other = ex_prb_full\<lparr>obses := [20, 21, 22, 23], rewards := [0, 3, - 2, 1]\<rparr>"

section \<open>Properties\<close>

subsection \<open>C1: the priority of a fresh transition\<close>

text \<open>
  C1 says that after \<^verbatim>\<open>add\<close> the leaf of both trees at the index where the transition
  was just written holds \<open>max_priority ^ alpha\<close>. The source writes the leaves at the cursor
  after the inherited \<open>add\<close> has moved it. In a fresh buffer of capacity 2 with \<open>alpha = 1\<close>
  the first transition is written to slot 0 (the cursor of the fresh buffer), while the
  value \<open>max_priority ^ alpha = 1\<close> goes to leaf 1: leaf 0 keeps the neutral elements 0 and
  \<open>+\<infinity>\<close>.
\<close>

theorem add_p_leaf_not_at_written_slot:
  "(case PrioritizedReplayBuffer_init 2 1 (0::nat) (0::nat) 0 of
      Some (Inr st0) \<Rightarrow>
        (case add_p st0 7 8 1 9 False of
           (r, st1) \<Rightarrow> r = None \<and> idx st0 = 0 \<and> obses st1 = [7, 0] \<and>
              max_priority st1 powr alpha st1 = 1 \<and>
              sum_tree st1 = [0, 1] \<and> min_tree st1 = [PInf, Fin 1])
    | _ \<Rightarrow> False)"
  by (simp add: PrioritizedReplayBuffer_init_def tree_capacity_loop.simps ReplayBuffer_init_def
     SegmentTree_init_def add_p_def add_def copyto_def py_pow_def tree_set_def
     replay_buffer.extend_def numeral_2_eq_2)

subsection \<open>C3: the ring buffer\<close>

lemma add_ok:
  assumes "buffer_ok st"
  shows "add st ob ac rw nob dn =
     (None, st\<lparr>obses := (obses st)[idx st := ob], actions := (actions st)[idx st := ac],
        rewards := (rewards st)[idx st := rw], next_obses := (next_obses st)[idx st := nob],
        not_dones := (not_dones st)[idx st := (if dn then 0 else 1)],
        idx := (idx st + 1) mod capacity st,
        full := full st \<or> (idx st + 1) mod capacity st = 0\<rparr>)"
  using assms by (simp add: add_def copyto_def buffer_ok_def Let_def)

lemma add_keeps_ok: "buffer_ok st \<Longrightarrow> buffer_ok (snd (add st ob ac rw nob dn))"
  by (simp add: add_ok) (simp add: buffer_ok_def)

lemma add_all_snoc:
  "add_all st (ts @ [t]) =
     (case add_all st ts of (Some e, st') \<Rightarrow> (Some e, st')
      | (None, st') \<Rightarrow> (case t of (ob, ac, rw, nob, dn) \<Rightarrow> add st' ob ac rw nob dn))"
proof (induction st ts rule: add_all.induct)
  case (1 st)
  show ?case by (cases t) (auto split: prod.splits option.splits)
next
  case (2 st ob ac rw nob dn ts)
  show ?case
  proof (cases "add st ob ac rw nob dn")
    case (Pair r st')
    show ?thesis
    proof (cases r)
      case None
      with Pair 2 show ?thesis by simp
    next
      case (Some e)
      with Pair show ?thesis by simp
    qed
  qed
qed

lemma mod_window_neq:
  fixes a t k C :: nat
  assumes "t < k" "k < t + C"
  shows "(a + t) mod C \<noteq> (a + k) mod C"
proof
  assume eq: "(a + t) mod C = (a + k) mod C"
  have "(a + k - (a + t)) mod C = 0"
    using eq assms(1) by (metis add_le_cancel_left less_imp_le_nat mod_eq_dvd_iff_nat dvd_imp_mod_0)
  then have "(k - t) mod C = 0" by simp
  moreover have "0 < k - t" "k - t < C" using assms by simp_all
  ultimately show False by simp
qed

lemma full_after_add:
  fixes a k C :: nat
  assumes "a < C"
  shows "(C \<le> a + k \<or> Suc ((a + k) mod C) mod C = 0) = (C \<le> a + Suc k)"
proof (cases "C \<le> a + k")
  case True then show ?thesis by simp
next
  case False
  then have lt: "a + k < C" by simp
  show ?thesis
  proof (cases "Suc (a + k) = C")
    case True with lt show ?thesis by simp
  next
    case False
    with lt have "Suc (a + k) < C" by simp
    with lt show ?thesis by simp
  qed
qed

lemma add_all_inv:
  assumes ok: "buffer_ok st0"
  shows "\<exists>st. add_all st0 ts = (None, st) \<and> buffer_ok st \<and> capacity st = capacity st0 \<and>
     idx st = (idx st0 + length ts) mod capacity st0 \<and>
     full st = (full st0 \<or> capacity st0 \<le> idx st0 + length ts) \<and>
     (\<forall>t < length ts. length ts \<le> t + capacity st0 \<longrightarrow>
        row st ((idx st0 + t) mod capacity st0) = stored (ts ! t))"
proof (induction ts rule: rev_induct)
  case Nil
  show ?case using ok by (simp add: buffer_ok_def)
next
  case (snoc x ts)
  let ?C = "capacity st0"
  from snoc obtain st where st: "add_all st0 ts = (None, st)" "buffer_ok st"
    "capacity st = ?C" "idx st = (idx st0 + length ts) mod ?C"
    "full st = (full st0 \<or> ?C \<le> idx st0 + length ts)"
    and rows: "\<forall>t < length ts. length ts \<le> t + ?C \<longrightarrow>
       row st ((idx st0 + t) mod ?C) = stored (ts ! t)"
    by blast
  obtain ob ac rw nob dn where x: "x = (ob, ac, rw, nob, dn)" by (cases x) auto
  let ?st' = "snd (add st ob ac rw nob dn)"
  have run: "add_all st0 (ts @ [x]) = (None, ?st')"
    using st(1,2) by (simp add: add_all_snoc x add_ok)
  have ok': "buffer_ok ?st'" using st(2) by (rule add_keeps_ok)
  have cap: "capacity ?st' = ?C" using st(2,3) by (simp add: add_ok)
  have idx': "idx ?st' = (idx st0 + length (ts @ [x])) mod ?C"
    using st(2,3,4) by (simp add: add_ok mod_Suc_eq)
  have a: "idx st0 < ?C" using ok by (simp add: buffer_ok_def)
  have full': "full ?st' = (full st0 \<or> ?C \<le> idx st0 + length (ts @ [x]))"
    using st(2,3,4,5) full_after_add [OF a, of "length ts"] by (auto simp add: add_ok)
  have rows': "\<forall>t < length (ts @ [x]). length (ts @ [x]) \<le> t + ?C \<longrightarrow>
      row ?st' ((idx st0 + t) mod ?C) = stored ((ts @ [x]) ! t)"
  proof (intro allI impI)
    fix t assume t: "t < length (ts @ [x])" and near: "length (ts @ [x]) \<le> t + ?C"
    have lens: "length (obses st) = ?C" "length (actions st) = ?C" "length (rewards st) = ?C"
      "length (next_obses st) = ?C" "length (not_dones st) = ?C" "idx st < ?C"
      using st(2,3) by (simp_all add: buffer_ok_def)
    show "row ?st' ((idx st0 + t) mod ?C) = stored ((ts @ [x]) ! t)"
    proof (cases "t = length ts")
      case True
      then show ?thesis using st(2,4) lens
        by (simp add: add_ok row_def stored_def x)
    next
      case False
      with t have tl: "t < length ts" by simp
      from near have near': "length ts < t + ?C" by simp
      have ne: "(idx st0 + t) mod ?C \<noteq> (idx st0 + length ts) mod ?C"
        using tl near' by (rule mod_window_neq)
      have keep: "row ?st' ((idx st0 + t) mod ?C) = row st ((idx st0 + t) mod ?C)"
        using st(2,4) ne by (simp add: add_ok row_def)
      from rows tl near' have "row st ((idx st0 + t) mod ?C) = stored (ts ! t)" by simp
      with keep tl show ?thesis by (simp add: nth_append)
    qed
  qed
  show ?case using run ok' cap idx' full' rows' by blast
qed

lemma window_covers:
  fixes a k C :: nat
  assumes "0 < C" "C \<le> k"
  shows "(\<lambda>t. (a + t) mod C) ` {k - C ..< k} = {0 ..< C}"
proof -
  have inj: "inj_on (\<lambda>t. (a + t) mod C) {k - C ..< k}"
  proof (rule inj_onI)
    fix x y assume x: "x \<in> {k - C ..< k}" and y: "y \<in> {k - C ..< k}"
      and eq: "(a + x) mod C = (a + y) mod C"
    show "x = y"
    proof (rule ccontr)
      assume "x \<noteq> y"
      then consider "x < y" | "y < x" by linarith
      then show False
      proof cases
        case 1
        have "y < x + C" using x y assms by auto
        from mod_window_neq [OF 1 this, of a] eq show False by simp
      next
        case 2
        have "x < y + C" using x y assms by auto
        from mod_window_neq [OF 2 this, of a] eq show False by simp
      qed
    qed
  qed
  have sub: "(\<lambda>t. (a + t) mod C) ` {k - C ..< k} \<subseteq> {0 ..< C}" using assms by auto
  have "card ((\<lambda>t. (a + t) mod C) ` {k - C ..< k}) = C"
    using inj assms by (simp add: card_image)
  then show ?thesis using sub by (simp add: card_subset_eq)
qed

lemma add_p_ok:
  assumes "prb_ok st"
  shows "add_p st ob ac rw nob dn =
     (None, (snd (add st ob ac rw nob dn))
        \<lparr>sum_tree := (sum_tree st)[(idx st + 1) mod capacity st := max_priority st powr alpha st],
         min_tree := (min_tree st)[(idx st + 1) mod capacity st :=
            Fin (max_priority st powr alpha st)]\<rparr>)"
proof -
  have ok: "buffer_ok st" and len: "capacity st \<le> length (sum_tree st)"
    "length (min_tree st) = length (sum_tree st)" and mp: "0 < max_priority st"
    using assms by (simp_all add: prb_ok_def)
  have "0 < capacity st" using ok by (simp add: buffer_ok_def)
  then have "(idx st + 1) mod capacity st < capacity st" by simp
  with len have "(idx st + 1) mod capacity st < length (sum_tree st)" by linarith
  then show ?thesis using len mp
    by (simp add: add_p_def add_ok [OF ok] py_pow_def tree_set_def)
qed

lemma list_all2_update_sync:
  "list_all2 leaf_sync xs ys \<Longrightarrow> 0 < v \<Longrightarrow> list_all2 leaf_sync (xs[i := v]) (ys[i := Fin v])"
  by (rule list_all2_update_cong) (simp_all add: leaf_sync_def)

lemma add_p_keeps_ok:
  assumes "prb_ok st"
  shows "prb_ok (snd (add_p st ob ac rw nob dn))"
proof -
  have ok: "buffer_ok st" using assms by (simp add: prb_ok_def)
  have b: "buffer_ok (snd (add st ob ac rw nob dn))" using ok by (rule add_keeps_ok)
  have pos: "0 < max_priority st powr alpha st" using assms by (simp add: prb_ok_def)
  show ?thesis
    using assms b pos
    by (simp add: add_p_ok) (simp add: prb_ok_def buffer_ok_def add_ok [OF ok] list_all2_update_sync)
qed

lemma add_p_base:
  assumes "prb_ok st"
  shows "replay_buffer.truncate (snd (add_p st ob ac rw nob dn)) =
         replay_buffer.truncate (snd (add st ob ac rw nob dn))"
  using assms by (simp add: add_p_ok replay_buffer.truncate_def)

lemma add_truncate:
  "add (replay_buffer.truncate st) ob ac rw nob dn =
     (fst (add st ob ac rw nob dn), replay_buffer.truncate (snd (add st ob ac rw nob dn)))"
  by (simp add: add_def copyto_def replay_buffer.truncate_def Let_def)

lemma add_all_p_base:
  assumes "prb_ok st"
  shows "fst (add_all_p st ts) = None \<and> prb_ok (snd (add_all_p st ts)) \<and>
     replay_buffer.truncate (snd (add_all_p st ts)) =
       snd (add_all (replay_buffer.truncate st) ts)"
  using assms
proof (induction ts arbitrary: st)
  case Nil
  show ?case using Nil by simp
next
  case (Cons t ts)
  obtain ob ac rw nob dn where t: "t = (ob, ac, rw, nob, dn)" by (cases t) auto
  obtain st' where step: "add_p st ob ac rw nob dn = (None, st')"
    using Cons.prems by (simp add: add_p_ok)
  have ok: "buffer_ok st" using Cons.prems by (simp add: prb_ok_def)
  have ok': "prb_ok st'" using add_p_keeps_ok [OF Cons.prems, of ob ac rw nob dn] step by simp
  have base: "add (replay_buffer.truncate st) ob ac rw nob dn =
     (None, replay_buffer.truncate st')"
    using add_p_base [OF Cons.prems, of ob ac rw nob dn] step
    by (simp add: add_truncate add_ok [OF ok])
  show ?case using Cons.IH [OF ok'] step base by (simp add: t)
qed

lemma ring_after_truncate:
  "ring_after (replay_buffer.truncate st0) ts (replay_buffer.truncate st) = ring_after st0 ts st"
  by (simp add: ring_after_def replay_buffer.truncate_def len_def row_def Let_def)

lemma buffer_ok_truncate: "buffer_ok (replay_buffer.truncate st) = buffer_ok st"
  by (simp add: buffer_ok_def replay_buffer.truncate_def)

lemma add_all_ring:
  assumes "buffer_ok st0"
  shows "fst (add_all st0 ts) = None \<and> ring_after st0 ts (snd (add_all st0 ts))"
proof -
  let ?C = "capacity st0"
  from add_all_inv [OF assms, of ts] obtain st where st: "add_all st0 ts = (None, st)"
    "buffer_ok st" "capacity st = ?C" "idx st = (idx st0 + length ts) mod ?C"
    "full st = (full st0 \<or> ?C \<le> idx st0 + length ts)"
    and rows: "\<forall>t < length ts. length ts \<le> t + ?C \<longrightarrow>
       row st ((idx st0 + t) mod ?C) = stored (ts ! t)"
    by blast
  have C: "0 < ?C" using assms by (simp add: buffer_ok_def)
  have i: "idx st < ?C" using st(2,3) by (simp add: buffer_ok_def)
  have big: "?C \<le> length ts \<Longrightarrow> len st = ?C" using st(3,5) by (simp add: len_def)
  have win: "?C \<le> length ts \<Longrightarrow>
      \<forall>t \<in> {length ts - ?C ..< length ts}. row st ((idx st0 + t) mod ?C) = stored (ts ! t)"
    using rows by auto
  have cov: "?C \<le> length ts \<Longrightarrow>
      (\<lambda>t. (idx st0 + t) mod ?C) ` {length ts - ?C ..< length ts} = {0 ..< ?C}"
    using C by (rule window_covers)
  have "ring_after st0 ts st"
    unfolding ring_after_def Let_def using st(3,4) i big win cov by (simp add: len_def)
  with st(1) show ?thesis by simp
qed

text \<open>
  C3: for a buffer of capacity \<open>C\<close> and any sequence of \<open>k\<close> adds (through
  \<^verbatim>\<open>ReplayBuffer.add\<close> or \<^verbatim>\<open>PrioritizedReplayBuffer.add\<close>), no add fails, \<open>len\<close> is \<open>C\<close> if
  the flag is set and the cursor otherwise, the cursor stays below \<open>C\<close> and moves to
  \<open>(cursor + 1) mod C\<close> with each add, and from \<open>k \<ge> C\<close> on \<open>len\<close> is \<open>C\<close> and the columns
  hold exactly the last \<open>C\<close> transitions, transition \<open>t\<close> in slot \<open>(idx st0 + t) mod C\<close>.
\<close>

theorem add_ring_capacity:
  assumes "buffer_ok st0" and "prb_ok p0"
  shows "fst (add_all st0 ts) = None \<and> ring_after st0 ts (snd (add_all st0 ts)) \<and>
     idx (snd (add st0 ob ac rw nob dn)) = (idx st0 + 1) mod capacity st0 \<and>
     fst (add_all_p p0 ts) = None \<and> ring_after p0 ts (snd (add_all_p p0 ts))"
proof -
  have b: "buffer_ok (replay_buffer.truncate p0)"
    using assms(2) by (simp add: prb_ok_def buffer_ok_truncate)
  have "ring_after (replay_buffer.truncate p0) ts (replay_buffer.truncate (snd (add_all_p p0 ts)))"
    using add_all_ring [OF b, of ts] add_all_p_base [OF assms(2), of ts] by simp
  then have "ring_after p0 ts (snd (add_all_p p0 ts))" by (simp only: ring_after_truncate)
  moreover have "fst (add_all_p p0 ts) = None" using add_all_p_base [OF assms(2), of ts] by simp
  moreover have "idx (snd (add st0 ob ac rw nob dn)) = (idx st0 + 1) mod capacity st0"
    using assms(1) by (simp add: add_ok)
  ultimately show ?thesis using add_all_ring [OF assms(1), of ts] by simp
qed

lemma rep3: "replicate 3 x = [x, x, x]" by (simp add: numeral_3_eq_3)

lemma ex_prb_ok: "prb_ok ex_prb"
  by (simp add: ex_prb_def prb_ok_def buffer_ok_def ReplayBuffer_init_def
      replay_buffer.extend_def leaf_sync_def)

lemma ex_buffer_ok: "buffer_ok ex_buffer"
  by (simp add: ex_buffer_def buffer_ok_def ReplayBuffer_init_def)

lemma ex_run: "add_all ex_buffer ex_transitions =
   (None, \<lparr> capacity = 3, obses = [13, 11, 12], next_obses = [14, 12, 13],
       actions = [4, 2, 3], rewards = [2, -1, 0],
       not_dones = [0, 1, 1], idx = 1, full = True \<rparr>)"
  by (simp add: ex_buffer_def ex_transitions_def ReplayBuffer_init_def add_ok buffer_ok_def rep3)

theorem add_ring_capacity_witness:
  "buffer_ok ex_buffer \<and> prb_ok ex_prb \<and>
   fst (add_all ex_buffer ex_transitions) = None \<and>
   ring_after ex_buffer ex_transitions (snd (add_all ex_buffer ex_transitions)) \<and>
   obses (snd (add_all ex_buffer ex_transitions)) = [13, 11, 12] \<and>
   len (snd (add_all ex_buffer ex_transitions)) = 3 \<and>
   idx (snd (add ex_buffer 10 1 5 11 False)) = 1 \<and>
   fst (add_all_p ex_prb ex_transitions) = None \<and>
   ring_after ex_prb ex_transitions (snd (add_all_p ex_prb ex_transitions))"
  using add_ring_capacity [OF ex_buffer_ok ex_prb_ok, of ex_transitions 10 1 5 11 False]
    ex_buffer_ok ex_prb_ok
  by (simp add: ex_run len_def) (simp add: ex_buffer_def ReplayBuffer_init_def)

subsection \<open>C2: fetch and the n-step return\<close>

lemma np_max_Max: "idxs \<noteq> [] \<Longrightarrow> np_max idxs = Inr (Max (set idxs))"
proof (cases idxs)
  case Nil
  assume "idxs \<noteq> []"
  with Nil show ?thesis by simp
next
  case (Cons a list)
  then show ?thesis using Max.set_eq_fold [of a list] by (simp add: np_max_def)
qed

lemma np_take_nat:
  assumes "\<forall>j \<in> set js. 0 \<le> j \<and> j < int (length arr)"
  shows "np_take arr js = Inr (map (\<lambda>j. arr ! nat j) js)"
  using assms by (auto simp add: np_take_def np_ok_def np_pos_def list_all_iff)

lemma fetch_loop_steps:
  assumes "\<forall>i \<in> set idxs. 0 \<le> i \<and> nat i + m + j \<le> length (rewards st)"
    and "length (not_dones st) = length (rewards st)"
  shows "fetch_loop st idxs discount [m ..< m + j]
      (map (\<lambda>i. nstep_return (rewards st) (not_dones st) discount m (nat i)) idxs)
      (map (\<lambda>i. run_not_done (not_dones st) (nat i) m) idxs) =
    Inr (map (\<lambda>i. nstep_return (rewards st) (not_dones st) discount (m + j) (nat i)) idxs,
         map (\<lambda>i. run_not_done (not_dones st) (nat i) (m + j)) idxs)"
  using assms
proof (induction j arbitrary: m)
  case 0
  show ?case by simp
next
  case (Suc j)
  have up: "[m ..< m + Suc j] = m # [Suc m ..< Suc m + j]" by (simp add: upt_rec)
  have rng: "\<forall>i \<in> set (map (\<lambda>j. j + int m) idxs). 0 \<le> i \<and> i < int (length (rewards st))"
    using Suc.prems(1) by auto
  have rng': "\<forall>i \<in> set (map (\<lambda>j. j + int m) idxs). 0 \<le> i \<and> i < int (length (not_dones st))"
    using rng Suc.prems(2) by simp
  have pos: "\<And>i. i \<in> set idxs \<Longrightarrow> nat (i + int m) = nat i + m"
    using Suc.prems(1) by (simp add: nat_add_distrib)
  have rs: "map2 (+) (map (\<lambda>i. nstep_return (rewards st) (not_dones st) discount m (nat i)) idxs)
      (map2 (*) (map ((*) (discount ^ m)) (map (\<lambda>i. run_not_done (not_dones st) (nat i) m) idxs))
         (map sgn (map (\<lambda>j. rewards st ! nat j) (map (\<lambda>j. j + int m) idxs)))) =
      map (\<lambda>i. nstep_return (rewards st) (not_dones st) discount (Suc m) (nat i)) idxs"
    by (simp add: map2_map_map nstep_return_def pos cong: map_cong)
  have nds: "map2 min (map (\<lambda>i. run_not_done (not_dones st) (nat i) m) idxs)
       (map (\<lambda>j. not_dones st ! nat j) (map (\<lambda>j. j + int m) idxs)) =
      map (\<lambda>i. run_not_done (not_dones st) (nat i) (Suc m)) idxs"
    by (simp add: map2_map_map pos cong: map_cong)
  have IH: "fetch_loop st idxs discount [Suc m ..< Suc m + j]
      (map (\<lambda>i. nstep_return (rewards st) (not_dones st) discount (Suc m) (nat i)) idxs)
      (map (\<lambda>i. run_not_done (not_dones st) (nat i) (Suc m)) idxs) =
    Inr (map (\<lambda>i. nstep_return (rewards st) (not_dones st) discount (Suc m + j) (nat i)) idxs,
         map (\<lambda>i. run_not_done (not_dones st) (nat i) (Suc m + j)) idxs)"
    using Suc.prems by (intro Suc.IH) auto
  show ?case
    unfolding up fetch_loop.simps np_take_nat [OF rng] np_take_nat [OF rng'] Let_def
    using IH by (simp only: sum.case rs nds add_Suc_right add_Suc)
qed

lemma run_not_done_Min:
  assumes "0 < n" and "\<forall>k < n. nd ! (i + k) \<le> 1"
  shows "run_not_done nd i n = Min ((\<lambda>k. nd ! (i + k)) ` {..< n})"
  using assms
proof (induction n)
  case 0
  then show ?case by simp
next
  case (Suc n)
  show ?case
  proof (cases "n = 0")
    case True
    with Suc.prems show ?thesis by (simp add: lessThan_Suc min_def)
  next
    case False
    then have IH: "run_not_done nd i n = Min ((\<lambda>k. nd ! (i + k)) ` {..< n})"
      using Suc by simp
    have ne: "(\<lambda>k. nd ! (i + k)) ` {..< n} \<noteq> {}" using False by auto
    show ?thesis
      using IH ne by (simp add: lessThan_Suc min.commute)
  qed
qed

text \<open>
  C2: for a non-empty array \<open>idxs\<close> of slot indices with \<open>max idxs + n \<le> len\<close> and a
  window length \<open>n \<ge> 1\<close>, \<^verbatim>\<open>fetch\<close> returns, per index \<open>i\<close>, the observation and the action
  stored at \<open>i\<close>, the next observation stored at \<open>i + n - 1\<close>, the n-step return of the
  spec's formula and the running continuation flag after the window, which is the minimum
  of the window's flags when these are at most 1. With rewards 5, -1, 0, 2, all flags 1,
  discount 1/2, \<open>n = 2\<close> and index 0 the return is 1/2 (the witness).
\<close>

theorem fetch_n_step:
  assumes "buffer_ok st" and "idxs \<noteq> []" and "\<forall>i \<in> set idxs. 0 \<le> i" and "1 \<le> n"
    and "Max (set idxs) + n \<le> int (len st)"
  shows "fetch st idxs discount n =
     Inr (map (\<lambda>i. obses st ! nat i) idxs,
          map (\<lambda>i. actions st ! nat i) idxs,
          map (\<lambda>i. nstep_return (rewards st) (not_dones st) discount (nat n) (nat i)) idxs,
          map (\<lambda>i. next_obses st ! (nat i + nat n - 1)) idxs,
          map (\<lambda>i. run_not_done (not_dones st) (nat i) (nat n)) idxs) \<and>
     (\<forall>i \<in> set idxs. (\<forall>k < nat n. not_dones st ! (nat i + k) \<le> 1) \<longrightarrow>
        run_not_done (not_dones st) (nat i) (nat n) =
          Min ((\<lambda>k. not_dones st ! (nat i + k)) ` {..< nat n}))"
proof -
  let ?C = "capacity st"
  have lens: "length (obses st) = ?C" "length (next_obses st) = ?C" "length (actions st) = ?C"
    "length (rewards st) = ?C" "length (not_dones st) = ?C"
    using assms(1) by (simp_all add: buffer_ok_def)
  have lenC: "len st \<le> ?C" using assms(1) by (simp add: len_def buffer_ok_def)
  have bound: "\<And>i. i \<in> set idxs \<Longrightarrow> 0 \<le> i \<and> i + n \<le> int ?C"
  proof -
    fix i assume i: "i \<in> set idxs"
    then have "i \<le> Max (set idxs)" by simp
    with assms(5) lenC have "i + n \<le> int ?C" by linarith
    with assms(3) i show "0 \<le> i \<and> i + n \<le> int ?C" by simp
  qed
  have r1: "\<forall>j \<in> set idxs. 0 \<le> j \<and> j < int (length (obses st))"
    using bound assms(4) lens by fastforce
  have r2: "\<forall>j \<in> set (map (\<lambda>j. j + n - 1) idxs). 0 \<le> j \<and> j < int (length (next_obses st))"
    using bound assms(4) lens by fastforce
  have r3: "\<forall>j \<in> set idxs. 0 \<le> j \<and> j < int (length (actions st))"
    using bound assms(4) lens by fastforce
  have pos: "\<And>i. i \<in> set idxs \<Longrightarrow> nat (i + n - 1) = nat i + nat n - 1"
  proof -
    fix i assume "i \<in> set idxs"
    with assms(3) have "0 \<le> i" by simp
    with assms(4) show "nat (i + n - 1) = nat i + nat n - 1" by linarith
  qed
  have loop0: "\<forall>i \<in> set idxs. 0 \<le> i \<and> nat i + 0 + nat n \<le> length (rewards st)"
  proof
    fix i assume "i \<in> set idxs"
    from bound [OF this] assms(4) show "0 \<le> i \<and> nat i + 0 + nat n \<le> length (rewards st)"
      by (simp add: lens) linarith
  qed
  have loop: "fetch_loop st idxs discount [0 ..< nat n]
      (replicate (length idxs) 0) (replicate (length idxs) 1) =
    Inr (map (\<lambda>i. nstep_return (rewards st) (not_dones st) discount (nat n) (nat i)) idxs,
         map (\<lambda>i. run_not_done (not_dones st) (nat i) (nat n)) idxs)"
    using fetch_loop_steps [OF loop0, of discount] lens
    by (simp add: nstep_return_def map_replicate_const)
  have guard: "Max (set idxs) + n \<le> int (len st)" by (rule assms(5))
  have fetched: "fetch st idxs discount n =
     Inr (map (\<lambda>i. obses st ! nat i) idxs,
          map (\<lambda>i. actions st ! nat i) idxs,
          map (\<lambda>i. nstep_return (rewards st) (not_dones st) discount (nat n) (nat i)) idxs,
          map (\<lambda>i. next_obses st ! (nat i + nat n - 1)) idxs,
          map (\<lambda>i. run_not_done (not_dones st) (nat i) (nat n)) idxs)"
    unfolding fetch_def np_max_Max [OF assms(2)] np_take_nat [OF r1] np_take_nat [OF r2]
      np_take_nat [OF r3] loop
    using guard by (simp add: pos cong: map_cong)
  have "0 < nat n" using assms(4) by simp
  then have "\<forall>i \<in> set idxs. (\<forall>k < nat n. not_dones st ! (nat i + k) \<le> 1) \<longrightarrow>
        run_not_done (not_dones st) (nat i) (nat n) =
          Min ((\<lambda>k. not_dones st ! (nat i + k)) ` {..< nat n})"
    by (simp add: run_not_done_Min)
  with fetched show ?thesis by simp
qed

theorem fetch_n_step_witness:
  "buffer_ok ex_fetch_buffer \<and> [0] \<noteq> ([] :: int list) \<and> (0 :: int) \<le> 0 \<and>
   (1 :: int) \<le> 2 \<and> Max (set [0]) + 2 \<le> int (len ex_fetch_buffer) \<and>
   fetch ex_fetch_buffer [0] (1 / 2) 2 = Inr ([10], [1], [1 / 2], [12], [1])"
proof -
  have ok: "buffer_ok ex_fetch_buffer" by (simp add: ex_fetch_buffer_def buffer_ok_def)
  have g: "Max (set [0]) + 2 \<le> int (len ex_fetch_buffer)"
    by (simp add: ex_fetch_buffer_def len_def)
  show ?thesis
    using ok g fetch_n_step [OF ok _ _ _ g, of "1 / 2"]
    by (simp add: ex_fetch_buffer_def nstep_return_def numeral_2_eq_2)
qed

subsection \<open>C6: sampling needs a window that fits\<close>

lemma sample_multistep_fails:
  assumes "int (len st) < n"
  shows "\<exists>e. fst (sample_multistep st batch_size discount n g) = Inl e"
proof (cases "full st")
  case False
  with assms show ?thesis by (simp add: sample_multistep_def len_def)
next
  case True
  with assms have last: "int (capacity st) - (n - 1) \<le> 0" by (simp add: len_def)
  show ?thesis
  proof (cases "batch_size = 0")
    case True
    then show ?thesis
      using \<open>full st\<close> by (simp add: sample_multistep_def sample_idxs_def np_randint_def
          fetch_def np_max_def)
  next
    case False
    then show ?thesis
      using \<open>full st\<close> last by (simp add: sample_multistep_def sample_idxs_def np_randint_def)
  qed
qed

lemma sample_multistep_p_fails:
  assumes "int (len st) < n"
  shows "\<exists>e g'. sample_multistep_p np_sum st batch_size beta discount n g = Some (Inl e, g')"
proof -
  have "tree_sum (sum_tree st) 0 (int (len st) - n - 1) = Inl IndexOutOfRange"
    using assms by (simp add: tree_sum_def)
  then show ?thesis
    by (simp add: sample_multistep_p_def sample_idxs_p_def)
qed

text \<open>
  C6: with \<open>n > len\<close> both \<^verbatim>\<open>sample_multistep\<close> methods end in an exception, for every
  buffer, batch size, discount, \<open>beta\<close> and generator. While the buffer is not full the
  assertion \<^verbatim>\<open>n <= self.idx or self.full\<close> fails. Once it is full the assertion holds for
  every \<open>n\<close>, and the call fails later: the uniform sampler in \<^verbatim>\<open>randint\<close> (or in
  \<^verbatim>\<open>fetch\<close> for an empty batch), the prioritized sampler on \<open>beta\<close> or in the range query
  \<^verbatim>\<open>sum(0, len - n - 1)\<close> with its negative bound.
\<close>

theorem sample_fails_beyond_size:
  assumes "int (len st) < n" and "int (len pst) < m"
  shows "(\<exists>e. fst (sample_multistep st batch_size discount n g) = Inl e) \<and>
         (\<exists>e g'. sample_multistep_p np_sum pst batch_size beta discount m g = Some (Inl e, g'))"
  using sample_multistep_fails [OF assms(1)] sample_multistep_p_fails [OF assms(2)] by blast

theorem sample_fails_beyond_size_witness:
  "int (len ex_fetch_buffer) < 5 \<and> int (len ex_prb_full) < 5 \<and>
   full ex_fetch_buffer \<and> full ex_prb_full \<and>
   len ex_fetch_buffer = capacity ex_fetch_buffer \<and> len ex_prb_full = capacity ex_prb_full \<and>
   (\<exists>e. fst (sample_multistep ex_fetch_buffer 2 (1 / 2) 5 (sconst (1 / 2))) = Inl e) \<and>
   (\<exists>e g'. sample_multistep_p True ex_prb_full 2 1 (1 / 2) 5 (sconst (1 / 2)) = Some (Inl e, g'))"
proof -
  have a: "int (len ex_fetch_buffer) < 5" by (simp add: ex_fetch_buffer_def len_def)
  have b: "int (len ex_prb_full) < 5"
    by (simp add: ex_prb_full_def ex_fetch_buffer_def len_def replay_buffer.extend_def)
  show ?thesis
    using a b sample_fails_beyond_size [OF a b, where batch_size = 2 and discount = "1 / 2" and g = "sconst (1 / 2)" and beta = 1 and np_sum = True]
    by (simp add: ex_prb_full_def ex_fetch_buffer_def len_def replay_buffer.extend_def)
qed

subsection \<open>C7: the maximal priority\<close>











lemma run_calls_length: "length (fst (run_calls st cs)) = length cs"
  by (induction cs arbitrary: st) simp_all







subsection \<open>C8: update of priorities and failure\<close>

lemma entry_ok_apply [simp]: "entry_ok (apply_entry e st) = entry_ok st"
  by (rule ext) (simp add: entry_ok_def apply_entry_def len_def)

lemma apply_entry_keeps_ok:
  assumes "prb_ok st" and "entry_ok st e"
  shows "prb_ok (apply_entry e st)"
proof -
  have "0 < snd e powr alpha st" using assms(2) by (simp add: entry_ok_def)
  then show ?thesis using assms(1)
    by (simp add: prb_ok_def apply_entry_def buffer_ok_def list_all2_update_sync max_def)
qed

lemma update_loop_step:
  assumes "prb_ok st" and "entry_ok st (ix, prio)"
  shows "update_loop st ((ix, prio) # rest) = update_loop (apply_entry (ix, prio) st) rest"
proof -
  have "len st \<le> capacity st" using assms(1) by (simp add: prb_ok_def buffer_ok_def len_def)
  then have "ix < int (length (sum_tree st))" "ix < int (length (min_tree st))"
    using assms by (simp_all add: prb_ok_def entry_ok_def)
  then show ?thesis using assms(2)
    by (simp add: entry_ok_def py_pow_def tree_set_def apply_entry_def)
qed

lemma update_loop_bad:
  assumes "\<not> entry_ok st (ix, prio)"
  shows "update_loop st ((ix, prio) # rest) = (Some AssertionError, st)"
  using assms by (auto simp add: entry_ok_def)

lemma update_loop_char:
  assumes "prb_ok st"
  shows "update_loop st zs =
     (if list_all (entry_ok st) zs then None else Some AssertionError,
      fold apply_entry (takeWhile (entry_ok st) zs) st)"
  using assms
proof (induction zs arbitrary: st)
  case Nil
  show ?case by simp
next
  case (Cons z zs)
  obtain ix prio where z: "z = (ix, prio)" by (cases z) auto
  show ?case
  proof (cases "entry_ok st z")
    case True
    have ok': "prb_ok (apply_entry z st)" using Cons.prems True by (rule apply_entry_keeps_ok)
    show ?thesis
      using True update_loop_step [OF Cons.prems, of ix prio zs] Cons.IH [OF ok']
      by (simp add: z)
  next
    case False
    then show ?thesis using update_loop_bad [of st ix prio zs] by (simp add: z)
  qed
qed

text \<open>
  C8, amended: \<^verbatim>\<open>update_priorities\<close> raises when the lengths differ, and then changes
  nothing; otherwise it raises exactly when some entry has a priority \<open>\<le> 0\<close> or an index
  outside \<open>[0, len)\<close>, and the buffer it leaves is the old one with the entries before the
  first such entry applied to both trees and to \<^verbatim>\<open>max_priority\<close>; that entry and the
  later ones are not applied.
\<close>

theorem update_priorities_prefix_applied:
  assumes "prb_ok st"
  shows "update_priorities st idxs prios =
     (if length idxs \<noteq> length prios then (Some AssertionError, st)
      else (if list_all (entry_ok st) (zip idxs prios) then None else Some AssertionError,
            fold apply_entry (takeWhile (entry_ok st) (zip idxs prios)) st))"
  using assms by (simp add: update_priorities_def update_loop_char)

lemma ex_prb_full_ok: "prb_ok ex_prb_full"
  by (simp add: ex_prb_full_def ex_fetch_buffer_def prb_ok_def buffer_ok_def
      replay_buffer.extend_def leaf_sync_def)

text \<open>
  C8 as stated fails: in the full example buffer the call with indices 0, 1 and
  priorities 5, 0 raises at the second entry, and leaf 0 of both trees and
  \<^verbatim>\<open>max_priority\<close> keep the value 5 of the first entry.
\<close>

theorem update_priorities_not_atomic:
  "fst (update_priorities ex_prb_full [0, 1] [5, 0]) = Some AssertionError \<and>
   sum_tree ex_prb_full = [1, 2, 1, 4] \<and> max_priority ex_prb_full = 4 \<and>
   sum_tree (snd (update_priorities ex_prb_full [0, 1] [5, 0])) = [5, 2, 1, 4] \<and>
   min_tree (snd (update_priorities ex_prb_full [0, 1] [5, 0])) = [Fin 5, Fin 2, Fin 1, Fin 4] \<and>
   max_priority (snd (update_priorities ex_prb_full [0, 1] [5, 0])) = 5"
  by (simp add: update_priorities_def ex_prb_full_def ex_fetch_buffer_def
      replay_buffer.extend_def py_pow_def tree_set_def len_def)

theorem update_priorities_prefix_applied_witness:
  "prb_ok ex_prb_full \<and>
   update_priorities ex_prb_full [2, 7, 3] [3, 6, 9] =
     (Some AssertionError, ex_prb_full\<lparr>sum_tree := [1, 2, 3, 4],
        min_tree := [Fin 1, Fin 2, Fin 3, Fin 4]\<rparr>)"
  using update_priorities_prefix_applied [OF ex_prb_full_ok, of "[2, 7, 3]" "[3, 6, 9]"]
    ex_prb_full_ok
  by (simp add: entry_ok_def apply_entry_def ex_prb_full_def ex_fetch_buffer_def
      replay_buffer.extend_def len_def)

subsection \<open>C4: stratified sampling of indices\<close>





lemma draw_band_hit:
  assumes "int (find_prefixsum_idx (sum_tree st) (shd g * w + real i * w)) + n \<le> int (len st)"
  shows "draw_band st w i n g = Some (find_prefixsum_idx (sum_tree st) (shd g * w + real i * w), stl g)"
  using assms by (subst draw_band.simps) (simp add: Let_def)

lemma draw_band_retry:
  assumes "draw_band st w i n g = Some y"
  shows "\<exists>j. snd y = sdrop (Suc j) g \<and>
         fst y = find_prefixsum_idx (sum_tree st) (band_mass g w i j) \<and>
         int (fst y) + n \<le> int (len st) \<and>
         (\<forall>j' < j. \<not> int (find_prefixsum_idx (sum_tree st) (band_mass g w i j')) + n \<le> int (len st))"
proof -
  let ?P = "\<lambda>st w i n g y. \<exists>j. snd y = sdrop (Suc j) g \<and>
         fst y = find_prefixsum_idx (sum_tree st) (band_mass g w i j) \<and>
         int (fst y) + n \<le> int (len st) \<and>
         (\<forall>j' < j. \<not> int (find_prefixsum_idx (sum_tree st) (band_mass g w i j')) + n \<le> int (len st))"
  have "?P st w i n g y"
  proof (rule draw_band.raw_induct [where P = ?P, OF _ assms])
    fix f st w i n g y
    assume IH: "\<And>st w i n g y. f st w i n g = Some y \<Longrightarrow> ?P st w i n g y"
      and body: "(let mass = shd g * w + real i * w;
            ix = find_prefixsum_idx (sum_tree st) mass
          in if int ix + n \<le> int (len st) then Some (ix, stl g)
             else f st w i n (stl g)) = Some y"
    let ?ix = "find_prefixsum_idx (sum_tree st) (shd g * w + real i * w)"
    show "?P st w i n g y"
    proof (cases "int ?ix + n \<le> int (len st)")
      case True
      with body have "y = (?ix, stl g)" by (simp add: Let_def)
      with True show ?thesis by (intro exI [of _ 0]) (simp add: band_mass_def)
    next
      case False
      with body have "f st w i n (stl g) = Some y" by (simp add: Let_def)
      from IH [OF this] obtain j where j: "snd y = sdrop (Suc j) (stl g)"
        "fst y = find_prefixsum_idx (sum_tree st) (band_mass (stl g) w i j)"
        "int (fst y) + n \<le> int (len st)"
        "\<forall>j' < j. \<not> int (find_prefixsum_idx (sum_tree st) (band_mass (stl g) w i j')) + n
            \<le> int (len st)"
        by blast
      have shift: "\<And>m. band_mass (stl g) w i m = band_mass g w i (Suc m)"
        by (simp add: band_mass_def)
      have a: "snd y = sdrop (Suc (Suc j)) g" using j(1) by simp
      have b: "fst y = find_prefixsum_idx (sum_tree st) (band_mass g w i (Suc j))"
        using j(2) by (simp only: shift)
      have c: "\<forall>j' < Suc j. \<not> int (find_prefixsum_idx (sum_tree st) (band_mass g w i j')) + n
            \<le> int (len st)"
      proof (intro allI impI)
        fix j' assume lt: "j' < Suc j"
        show "\<not> int (find_prefixsum_idx (sum_tree st) (band_mass g w i j')) + n \<le> int (len st)"
        proof (cases j')
          case 0
          with False show ?thesis by (simp add: band_mass_def)
        next
          case (Suc m)
          with lt have "m < j" by simp
          with j(4) have "\<not> int (find_prefixsum_idx (sum_tree st) (band_mass (stl g) w i m)) + n
            \<le> int (len st)" by blast
          then show ?thesis unfolding Suc shift .
        qed
      qed
      from a b j(3) c show ?thesis by blast
    qed
  qed
  then show ?thesis .
qed


lemma sample_idxs_loop_hits:
  assumes "\<forall>m < length ks.
     int (find_prefixsum_idx (sum_tree st) (band_mass g w (ks ! m) m)) + n \<le> int (len st)"
  shows "sample_idxs_loop st w n ks idxs g =
     Some (idxs @ map (\<lambda>m. find_prefixsum_idx (sum_tree st) (band_mass g w (ks ! m) m))
                    [0 ..< length ks],
           sdrop (length ks) g)"
  using assms
proof (induction ks arbitrary: idxs g)
  case Nil
  show ?case by simp
next
  case (Cons k ks)
  let ?ix = "find_prefixsum_idx (sum_tree st) (shd g * w + real k * w)"
  have hit: "int ?ix + n \<le> int (len st)"
    using Cons.prems [rule_format, of 0] by (simp add: band_mass_def)
  have shift: "\<And>m j. band_mass (stl g) w j m = band_mass g w j (Suc m)"
    by (simp add: band_mass_def)
  have rest: "\<forall>m < length ks.
     int (find_prefixsum_idx (sum_tree st) (band_mass (stl g) w (ks ! m) m)) + n \<le> int (len st)"
  proof (intro allI impI)
    fix m assume "m < length ks"
    then have "Suc m < length (k # ks)" by simp
    from Cons.prems [rule_format, OF this] show
      "int (find_prefixsum_idx (sum_tree st) (band_mass (stl g) w (ks ! m) m)) + n \<le> int (len st)"
      by (simp add: shift)
  qed
  have first: "band_mass g w k 0 = shd g * w + real k * w" by (simp add: band_mass_def)
  show ?case
    by (simp add: draw_band_hit [OF hit] Cons.IH [OF rest] map_upt_Suc shift first
        del: upt_Suc)
qed


lemma leaf_sync_nonneg:
  assumes "list_all2 leaf_sync xs ys"
  shows "\<forall>x \<in> set xs. 0 \<le> x"
proof
  fix x assume "x \<in> set xs"
  then obtain i where i: "i < length xs" "xs ! i = x" by (auto simp add: in_set_conv_nth)
  with assms have "leaf_sync x (ys ! i)" by (auto simp add: list_all2_conv_all_nth)
  then show "0 \<le> x" by (auto simp add: leaf_sync_def)
qed


lemma leaves_written_iff:
  "leaves_written st \<longleftrightarrow>
     (\<forall>i. (if full st then i < capacity st else 1 \<le> i \<and> i \<le> idx st) \<longrightarrow> 0 < sum_tree st ! i)"
  by (auto simp add: leaves_written_def list_all_iff)






lemma find_ex_1: "find_prefixsum_idx [1, 2, 1, 4] (3 / 4) = 0"
  by (simp add: find_prefixsum_idx.simps)

lemma find_ex_2: "find_prefixsum_idx [1, 2, 1, 4] (9 / 4) = 1"
  by (simp add: find_prefixsum_idx.simps)







subsection \<open>C5: importance-sampling weights\<close>

lemma py_pow_neg:
  assumes "py_pow x a = Inr v" and "a < 0"
  shows "0 < x \<and> v = x powr a"
  using assms by (auto simp add: py_pow_def split: if_splits)

lemma xmin_Fin_left: "\<exists>v'. xmin (Fin v) a = Fin v' \<and> v' \<le> v"
  by (cases a) simp_all

lemma xmin_Fin_right: "\<exists>v'. xmin x (Fin v) = Fin v' \<and> v' \<le> v"
  by (cases x) simp_all

lemma fold_xmin_le:
  "fold xmin xs a = Fin m \<Longrightarrow> Fin v \<in> set xs \<or> a = Fin v \<Longrightarrow> m \<le> v"
proof (induction xs arbitrary: a v)
  case Nil
  then show ?case by simp
next
  case (Cons x xs)
  have f: "fold xmin xs (xmin x a) = Fin m" using Cons.prems(1) by simp
  show ?case
  proof (cases "Fin v \<in> set xs")
    case True
    with Cons.IH [OF f] show ?thesis by blast
  next
    case False
    with Cons.prems(2) have "x = Fin v \<or> a = Fin v" by auto
    then obtain v' where v': "xmin x a = Fin v'" "v' \<le> v"
      using xmin_Fin_left [of v a] xmin_Fin_right [of x v] by auto
    from Cons.IH [OF f, of v'] v' show ?thesis by simp
  qed
qed

lemma weights_loop_result:
  "weights_loop st beta mw idxs ws = Inr out \<Longrightarrow>
     \<exists>new. out = ws @ new \<and> length new = length idxs \<and>
       (\<forall>k < length idxs. idxs ! k < length (sum_tree st) \<and> tree_sum_all (sum_tree st) \<noteq> 0 \<and>
          mw \<noteq> 0 \<and>
          (\<exists>w. py_pow (sum_tree st ! (idxs ! k) / tree_sum_all (sum_tree st) * real (len st))
                  (- beta) = Inr w \<and> new ! k = w / mw))"
proof (induction idxs arbitrary: ws)
  case Nil
  then show ?case by simp
next
  case (Cons ix rest)
  let ?v = "sum_tree st ! ix"
  from Cons.prems obtain w where
    ix: "ix < length (sum_tree st)" and tot: "tree_sum_all (sum_tree st) \<noteq> 0"
    and w: "py_pow (?v / tree_sum_all (sum_tree st) * real (len st)) (- beta) = Inr w"
    and mw: "mw \<noteq> 0"
    and rest: "weights_loop st beta mw rest (ws @ [w / mw]) = Inr out"
    by (auto simp add: tree_get_def Let_def split: sum.splits if_splits)
  from Cons.IH [OF rest] obtain new where new: "out = (ws @ [w / mw]) @ new"
    "length new = length rest"
    "\<forall>k < length rest. rest ! k < length (sum_tree st) \<and> tree_sum_all (sum_tree st) \<noteq> 0 \<and>
          mw \<noteq> 0 \<and>
          (\<exists>w. py_pow (sum_tree st ! (rest ! k) / tree_sum_all (sum_tree st) * real (len st))
                  (- beta) = Inr w \<and> new ! k = w / mw)"
    by blast
  have "\<forall>k < length (ix # rest). (ix # rest) ! k < length (sum_tree st) \<and>
          tree_sum_all (sum_tree st) \<noteq> 0 \<and> mw \<noteq> 0 \<and>
          (\<exists>w'. py_pow (sum_tree st ! ((ix # rest) ! k) / tree_sum_all (sum_tree st) * real (len st))
                  (- beta) = Inr w' \<and> ((w / mw) # new) ! k = w' / mw)"
  proof (intro allI impI)
    fix k assume k: "k < length (ix # rest)"
    show "(ix # rest) ! k < length (sum_tree st) \<and>
          tree_sum_all (sum_tree st) \<noteq> 0 \<and> mw \<noteq> 0 \<and>
          (\<exists>w'. py_pow (sum_tree st ! ((ix # rest) ! k) / tree_sum_all (sum_tree st) * real (len st))
                  (- beta) = Inr w' \<and> ((w / mw) # new) ! k = w' / mw)"
    proof (cases k)
      case 0
      with ix tot w mw show ?thesis by simp
    next
      case (Suc k')
      with k new(3) show ?thesis by simp
    qed
  qed
  with new(1,2) show ?case by (intro exI [of _ "(w / mw) # new"]) simp
qed

lemma weight_bounds:
  fixes leaf m p_sum beta :: real
  assumes "0 < m / p_sum * real count" and "m \<le> leaf" and "0 < p_sum" and "0 < beta"
  shows "0 < is_weight leaf m p_sum count beta \<and> is_weight leaf m p_sum count beta \<le> 1"
proof -
  let ?x = "m / p_sum * real count"
  let ?y = "leaf / p_sum * real count"
  have xy: "?x \<le> ?y"
    using assms(2,3) by (intro mult_right_mono divide_right_mono) simp_all
  with assms(1) have y: "0 < ?y" by linarith
  have le: "?y powr (- beta) \<le> ?x powr (- beta)"
    using assms(1,4) xy by (intro powr_mono2') simp_all
  have "?x \<noteq> 0" using assms(1) by linarith
  then have px: "0 < ?x powr (- beta)" using powr_gt_zero [of ?x "- beta"] by blast
  have "?y \<noteq> 0" using y by linarith
  then have py: "0 < ?y powr (- beta)" using powr_gt_zero [of ?y "- beta"] by blast
  show ?thesis
    unfolding is_weight_def using le px py by (simp add: divide_le_eq_1_pos)
qed

text \<open>
  C5: whenever the prioritized \<^verbatim>\<open>sample_multistep\<close> returns (which needs \<open>beta > 0\<close>), it
  returns one weight per index, each weight is the spec's quotient of the sampled leaf and
  the minimal leaf, and each weight is positive and at most 1. The buffer is one the
  class can produce: its two trees hold the same value wherever a leaf was written.
\<close>

theorem is_weights_bounded:
  assumes "prb_ok st"
    and "sample_multistep_p np_sum st batch_size beta discount n g =
           Some (Inr (sample, weights, idxs), g')"
  shows "0 < beta \<and> length weights = length idxs \<and>
     (\<exists>m. tree_min_all (min_tree st) = Fin m \<and>
        (\<forall>k < length idxs.
           weights ! k =
             is_weight (sum_tree st ! (idxs ! k)) m (tree_sum_all (sum_tree st)) (len st) beta \<and>
           0 < weights ! k \<and> weights ! k \<le> 1))"
proof -
  let ?tot = "tree_sum_all (sum_tree st)"
  let ?N = "real (len st)"
  from assms(2) obtain p_min mw where
    beta: "0 < beta"
    and pm: "p_min_of (tree_min_all (min_tree st)) ?tot = Inr p_min"
    and mw: "py_pow (p_min * ?N) (- beta) = Inr mw"
    and wl: "weights_loop st beta mw idxs [] = Inr weights"
    by (auto simp add: sample_multistep_p_def split: if_splits option.splits sum.splits prod.splits)
  from pm obtain m where m: "tree_min_all (min_tree st) = Fin m" and tot0: "?tot \<noteq> 0"
    and p_min: "p_min = m / ?tot"
    by (auto simp add: p_min_of_def split: xreal.splits if_splits)
  have sync: "list_all2 leaf_sync (sum_tree st) (min_tree st)"
    using assms(1) by (simp add: prb_ok_def)
  have "0 \<le> ?tot"
    unfolding tree_sum_all_def using leaf_sync_nonneg [OF sync] by (intro sum_list_nonneg) simp
  with tot0 have tot: "0 < ?tot" by simp
  from py_pow_neg [OF mw] beta have x: "0 < m / ?tot * ?N" and mwv: "mw = (m / ?tot * ?N) powr (- beta)"
    by (simp_all add: p_min)
  from weights_loop_result [OF wl] have len: "length weights = length idxs"
    and each: "\<forall>k < length idxs. idxs ! k < length (sum_tree st) \<and>
          (\<exists>w. py_pow (sum_tree st ! (idxs ! k) / ?tot * ?N) (- beta) = Inr w \<and>
             weights ! k = w / mw)"
    by auto
  have "\<forall>k < length idxs.
           weights ! k = is_weight (sum_tree st ! (idxs ! k)) m ?tot (len st) beta \<and>
           0 < weights ! k \<and> weights ! k \<le> 1"
  proof (intro allI impI)
    fix k assume k: "k < length idxs"
    let ?leaf = "sum_tree st ! (idxs ! k)"
    from each k obtain w where ix: "idxs ! k < length (sum_tree st)"
      and w: "py_pow (?leaf / ?tot * ?N) (- beta) = Inr w" and wk: "weights ! k = w / mw"
      by blast
    from py_pow_neg [OF w] beta have y: "0 < ?leaf / ?tot * ?N"
      and wv: "w = (?leaf / ?tot * ?N) powr (- beta)" by simp_all
    have leaf: "0 < ?leaf"
    proof (rule ccontr)
      assume "\<not> 0 < ?leaf"
      then have "?leaf / ?tot * ?N \<le> 0"
        using tot by (simp add: mult_nonpos_nonneg divide_nonpos_pos)
      with y show False by simp
    qed
    have "leaf_sync ?leaf (min_tree st ! (idxs ! k))"
      using sync ix by (simp add: list_all2_conv_all_nth)
    with leaf have "min_tree st ! (idxs ! k) = Fin ?leaf" by (auto simp add: leaf_sync_def)
    moreover have "idxs ! k < length (min_tree st)"
      using ix sync by (simp add: list_all2_lengthD)
    ultimately have "Fin ?leaf \<in> set (min_tree st)" by (metis nth_mem)
    with m have mle: "m \<le> ?leaf" unfolding tree_min_all_def by (intro fold_xmin_le) auto
    have eq: "weights ! k = is_weight ?leaf m ?tot (len st) beta"
      by (simp add: wk wv mwv is_weight_def)
    from weight_bounds [OF x mle tot beta] eq
    show "weights ! k = is_weight ?leaf m ?tot (len st) beta \<and> 0 < weights ! k \<and> weights ! k \<le> 1"
      by simp
  qed
  with beta len m show ?thesis by blast
qed

lemma ex_sample_idxs:
  "sample_idxs_p np_sum ex_prb_full 2 2 ex_draws = Some (Inr [0, 1], sdrop 2 ex_draws)"
proof -
  have st: "sum_tree ex_prb_full = [1, 2, 1, 4]" "len ex_prb_full = 4"
    by (simp_all add: ex_prb_full_def ex_fetch_buffer_def replay_buffer.extend_def len_def)
  have ts: "tree_sum (sum_tree ex_prb_full) 0 (int (len ex_prb_full) - 2 - 1) = Inr 3"
    by (simp add: st tree_sum_def)
  have hits: "\<forall>m < length [0 ..< 2].
     int (find_prefixsum_idx (sum_tree ex_prb_full) (band_mass ex_draws (3 / 2) ([0 ..< 2] ! m) m))
       + 2 \<le> int (len ex_prb_full)"
    by (simp add: st band_mass_def ex_draws_def find_ex_1 find_ex_2 numeral_2_eq_2 less_Suc_eq)
  show ?thesis
    unfolding sample_idxs_p_def ts
    by (simp add: sample_idxs_loop_hits [OF hits])
       (simp add: st band_mass_def ex_draws_def find_ex_1 find_ex_2 numeral_2_eq_2)
qed

lemma ex_sample_multistep:
  "sample_multistep_p np_sum ex_prb_full 2 1 (1 / 2) 2 ex_draws =
     Some (Inr (([10, 11], [1, 2], [1 / 2, - 1], [12, 13], [1, 1]), [1, 1 / 2], [0, 1]),
           sdrop 2 ex_draws)"
proof -
  have f: "fetch ex_prb_full (map int [0, 1]) (1 / 2) 2 =
      Inr ([10, 11], [1, 2], [1 / 2, - 1], [12, 13], [1, 1])"
    by (simp add: fetch_def np_max_def np_take_def np_ok_def np_pos_def len_def
        ex_prb_full_def ex_fetch_buffer_def replay_buffer.extend_def numeral_2_eq_2)
  have w: "weights_loop ex_prb_full 1 2 [0, 1] [] = Inr [1, 1 / 2]"
    by (simp add: tree_get_def tree_sum_all_def py_pow_def len_def powr_minus
        ex_prb_full_def ex_fetch_buffer_def replay_buffer.extend_def)
  have p: "p_min_of (tree_min_all (min_tree ex_prb_full)) (tree_sum_all (sum_tree ex_prb_full))
      = Inr (1 / 8)"
    by (simp add: p_min_of_def tree_min_all_def tree_sum_all_def
        ex_prb_full_def replay_buffer.extend_def)
  have mw: "py_pow (1 / 8 * real (len ex_prb_full)) (- 1) = Inr 2"
    by (simp add: py_pow_def len_def powr_minus ex_prb_full_def ex_fetch_buffer_def
        replay_buffer.extend_def)
  have g: "2 \<le> int (idx ex_prb_full) \<or> full ex_prb_full"
    by (simp add: ex_prb_full_def ex_fetch_buffer_def replay_buffer.extend_def)
  show ?thesis
    unfolding sample_multistep_p_def ex_sample_idxs option.case prod.case p sum.case mw w f
    using g by simp
qed

theorem is_weights_bounded_witness:
  "prb_ok ex_prb_full \<and>
   sample_multistep_p True ex_prb_full 2 1 (1 / 2) 2 ex_draws =
     Some (Inr (([10, 11], [1, 2], [1 / 2, - 1], [12, 13], [1, 1]), [1, 1 / 2], [0, 1]),
           sdrop 2 ex_draws) \<and>
   tree_min_all (min_tree ex_prb_full) = Fin 1 \<and>
   [1, 1 / 2] ! 1 = is_weight (sum_tree ex_prb_full ! ([0, 1] ! 1)) 1
      (tree_sum_all (sum_tree ex_prb_full)) (len ex_prb_full) 1 \<and>
   (0 :: real) < [1, 1 / 2] ! 1 \<and> [1, 1 / 2 :: real] ! 1 \<le> 1"
proof -
  have m: "tree_min_all (min_tree ex_prb_full) = Fin 1"
    by (simp add: tree_min_all_def ex_prb_full_def replay_buffer.extend_def)
  from is_weights_bounded [OF ex_prb_full_ok ex_sample_multistep] m
  have "[1, 1 / 2] ! 1 = is_weight (sum_tree ex_prb_full ! ([0, 1] ! 1)) 1
      (tree_sum_all (sum_tree ex_prb_full)) (len ex_prb_full) 1 \<and>
   (0 :: real) < [1, 1 / 2] ! 1 \<and> [1, 1 / 2 :: real] ! 1 \<le> 1"
    by auto
  with ex_prb_full_ok ex_sample_multistep m show ?thesis by simp
qed

subsection \<open>C9: sampling is a function of the generator state\<close>

lemma draw_band_first_valid:
  assumes "int (find_prefixsum_idx (sum_tree st) (band_mass g w i j)) + n \<le> int (len st)"
    and "\<forall>j' < j. \<not> int (find_prefixsum_idx (sum_tree st) (band_mass g w i j')) + n \<le> int (len st)"
  shows "draw_band st w i n g =
     Some (find_prefixsum_idx (sum_tree st) (band_mass g w i j), sdrop (Suc j) g)"
  using assms
proof (induction j arbitrary: g)
  case 0
  then show ?case using draw_band_hit [of st g w i n] by (simp add: band_mass_def)
next
  case (Suc j)
  have shift: "\<And>m. band_mass (stl g) w i m = band_mass g w i (Suc m)"
    by (simp add: band_mass_def)
  have miss: "\<not> int (find_prefixsum_idx (sum_tree st) (shd g * w + real i * w)) + n \<le> int (len st)"
    using Suc.prems(2) [rule_format, of 0] by (simp add: band_mass_def)
  have a: "int (find_prefixsum_idx (sum_tree st) (band_mass (stl g) w i j)) + n \<le> int (len st)"
    using Suc.prems(1) by (simp only: shift)
  have b: "\<forall>j' < j. \<not> int (find_prefixsum_idx (sum_tree st) (band_mass (stl g) w i j')) + n
      \<le> int (len st)"
  proof (intro allI impI)
    fix j' assume "j' < j"
    then have "Suc j' < Suc j" by simp
    from Suc.prems(2) [rule_format, OF this]
    show "\<not> int (find_prefixsum_idx (sum_tree st) (band_mass (stl g) w i j')) + n \<le> int (len st)"
      unfolding shift .
  qed
  have "draw_band st w i n g = draw_band st w i n (stl g)"
    using miss by (subst draw_band.simps) (simp add: Let_def)
  also have "\<dots> = Some (find_prefixsum_idx (sum_tree st) (band_mass (stl g) w i j),
      sdrop (Suc j) (stl g))"
    by (rule Suc.IH [OF a b])
  finally show ?case by (simp add: shift)
qed

lemma draw_band_view_le:
  assumes "sum_tree st1 = sum_tree st2" and "len st1 = len st2"
    and "draw_band st1 w i n g = Some y"
  shows "draw_band st2 w i n g = Some y"
proof -
  from draw_band_retry [OF assms(3)] obtain j where j: "snd y = sdrop (Suc j) g"
    "fst y = find_prefixsum_idx (sum_tree st1) (band_mass g w i j)"
    "int (fst y) + n \<le> int (len st1)"
    "\<forall>j' < j. \<not> int (find_prefixsum_idx (sum_tree st1) (band_mass g w i j')) + n \<le> int (len st1)"
    by blast
  have a: "int (find_prefixsum_idx (sum_tree st2) (band_mass g w i j)) + n \<le> int (len st2)"
    using j(2,3) assms(1,2) by simp
  have b: "\<forall>j' < j. \<not> int (find_prefixsum_idx (sum_tree st2) (band_mass g w i j')) + n \<le> int (len st2)"
    using j(4) assms(1,2) by simp
  from draw_band_first_valid [OF a b] j(1,2) assms(1) show ?thesis
    by (simp add: prod_eq_iff)
qed

lemma draw_band_view:
  assumes "sum_tree st1 = sum_tree st2" and "len st1 = len st2"
  shows "draw_band st1 w i n g = draw_band st2 w i n g"
proof (cases "draw_band st1 w i n g")
  case (Some y)
  with draw_band_view_le [OF assms this] show ?thesis by simp
next
  case None
  show ?thesis
  proof (cases "draw_band st2 w i n g")
    case None
    with \<open>draw_band st1 w i n g = None\<close> show ?thesis by simp
  next
    case (Some y)
    from draw_band_view_le [OF assms(1) [symmetric] assms(2) [symmetric] this] None
    show ?thesis by simp
  qed
qed

lemma sample_idxs_loop_view:
  assumes "sum_tree st1 = sum_tree st2" and "len st1 = len st2"
  shows "sample_idxs_loop st1 w n ks idxs g = sample_idxs_loop st2 w n ks idxs g"
proof (induction ks arbitrary: idxs g)
  case Nil
  show ?case by simp
next
  case (Cons k ks)
  show ?case by (simp add: draw_band_view [OF assms] Cons.IH split: option.splits)
qed

lemma sample_idxs_p_view:
  assumes "sum_tree st1 = sum_tree st2" and "len st1 = len st2"
  shows "sample_idxs_p np_sum st1 b n g = sample_idxs_p np_sum st2 b n g"
  by (simp add: sample_idxs_p_def assms sample_idxs_loop_view [OF assms] split: sum.splits)

lemma weights_loop_view:
  assumes "sum_tree st1 = sum_tree st2" and "len st1 = len st2"
  shows "weights_loop st1 beta mw idxs ws = weights_loop st2 beta mw idxs ws"
proof (induction idxs arbitrary: ws)
  case Nil
  show ?case by simp
next
  case (Cons ix rest)
  show ?case by (simp add: assms Cons.IH Let_def split: sum.splits)
qed

lemma np_take_length: "np_take arr js = Inr out \<Longrightarrow> length out = length js"
  by (auto simp add: np_take_def split: if_splits)

lemma np_take_error:
  "length arr1 = length arr2 \<Longrightarrow>
     (case np_take arr1 js of Inl e \<Rightarrow> Some e | Inr b \<Rightarrow> None) =
     (case np_take arr2 js of Inl e \<Rightarrow> Some e | Inr b \<Rightarrow> None)"
  by (simp add: np_take_def)

lemma fetch_loop_status:
  "(case fetch_loop st idxs d ks rs nds of Inl e \<Rightarrow> Some e | Inr b \<Rightarrow> None) =
     (if \<forall>k \<in> set ks. list_all (np_ok (length (rewards st))) (map (\<lambda>j. j + int k) idxs) \<and>
           list_all (np_ok (length (not_dones st))) (map (\<lambda>j. j + int k) idxs)
      then None else Some IndexError)"
  by (induction ks arbitrary: rs nds) (auto simp add: np_take_def Let_def)

lemma fetch_loop_error:
  assumes "length (rewards st1) = length (rewards st2)"
    and "length (not_dones st1) = length (not_dones st2)"
  shows "(case fetch_loop st1 idxs d ks rs1 nds1 of Inl e \<Rightarrow> Some e | Inr b \<Rightarrow> None) =
         (case fetch_loop st2 idxs d ks rs2 nds2 of Inl e \<Rightarrow> Some e | Inr b \<Rightarrow> None)"
  by (simp only: fetch_loop_status assms)

lemma fetch_error_shape:
  assumes "same_shape st1 st2"
  shows "fetch_error st1 idxs d n = fetch_error st2 idxs d n"
proof -
  have l: "len st1 = len st2" "length (obses st1) = length (obses st2)"
    "length (next_obses st1) = length (next_obses st2)"
    "length (actions st1) = length (actions st2)"
    "length (rewards st1) = length (rewards st2)"
    "length (not_dones st1) = length (not_dones st2)"
    using assms by (simp_all add: same_shape_def)
  show ?thesis
    unfolding fetch_error_def fetch_def
    using np_take_error [OF l(2), of idxs] np_take_error [OF l(3), of "map (\<lambda>j. j + n - 1) idxs"]
      np_take_error [OF l(4), of idxs]
      fetch_loop_error [OF l(5,6), of idxs d "[0 ..< nat n]" "replicate (length idxs) 0"
        "replicate (length idxs) 1" "replicate (length idxs) 0" "replicate (length idxs) 1"]
    by (auto simp add: l(1) split: sum.splits)
qed

lemma fetch_error_cases:
  assumes "fetch_error st1 idxs d n = fetch_error st2 idxs d n"
  shows "(case fetch st1 idxs d n of Inl e \<Rightarrow> Inl e | Inr sample \<Rightarrow> Inr (idxs', weights)) =
         (case fetch st2 idxs d n of Inl e \<Rightarrow> Inl e | Inr sample \<Rightarrow> Inr (idxs', weights))"
  using assms by (auto simp add: fetch_error_def split: sum.splits)

lemma sampled_sample_multistep_p:
  "sampled (sample_multistep_p np_sum st b beta d n g) =
     (if \<not> (n \<le> int (idx st) \<or> full st) then Some (Inl AssertionError, g)
      else if \<not> beta > 0 then Some (Inl AssertionError, g)
      else
        (case sample_idxs_p np_sum st b n g of
           None \<Rightarrow> None
         | Some (Inl e, g') \<Rightarrow> Some (Inl e, g')
         | Some (Inr idxs, g') \<Rightarrow>
            Some
             (case p_min_of (tree_min_all (min_tree st)) (tree_sum_all (sum_tree st)) of
                Inl e \<Rightarrow> Inl e
              | Inr p_min \<Rightarrow>
                 (case py_pow (p_min * real (len st)) (- beta) of Inl e \<Rightarrow> Inl e
                  | Inr max_weight \<Rightarrow>
                     (case weights_loop st beta max_weight idxs [] of Inl e \<Rightarrow> Inl e
                      | Inr weights \<Rightarrow>
                         (case fetch st (map int idxs) d n of Inl e \<Rightarrow> Inl e
                          | Inr sample \<Rightarrow> Inr (idxs, weights)))),
              g')))"
  by (simp add: sampled_def sample_multistep_p_def split: option.splits sum.splits prod.splits)

text \<open>
  C9: two runs of the prioritized \<^verbatim>\<open>sample_multistep\<close> with the same generator state return
  the same indices and the same weights (or raise the same exception, or both do not
  return), and leave the same generator state, on buffers with the same size, cursor, flag
  and trees; the stored transitions need not even agree. The same holds for the indices
  of the uniform \<^verbatim>\<open>sample_idxs\<close>. Identical buffers are the special case of the claim.
\<close>

theorem sampling_deterministic:
  assumes "same_shape st1 st2" and "sum_tree st1 = sum_tree st2"
    and "min_tree st1 = min_tree st2" and "g1 = g2"
  shows "sampled (sample_multistep_p np_sum st1 batch_size beta discount n g1) =
         sampled (sample_multistep_p np_sum st2 batch_size beta discount n g2) \<and>
         sample_idxs st1 batch_size n g1 = sample_idxs st2 batch_size n g2"
proof -
  have l: "len st1 = len st2" "idx st1 = idx st2" "full st1 = full st2"
    using assms(1) by (simp_all add: same_shape_def)
  have len': "(if full st1 then capacity st1 else idx st1) = (if full st2 then capacity st2 else idx st2)"
    using l by (simp add: len_def split: if_splits)
  have u: "sample_idxs st1 batch_size n g1 = sample_idxs st2 batch_size n g2"
    by (simp add: sample_idxs_def len' assms(4))
  have f: "\<And>idxs weights.
      (case fetch st1 (map int idxs) discount n of Inl e \<Rightarrow> Inl e
       | Inr sample \<Rightarrow> Inr (idxs, weights)) =
      (case fetch st2 (map int idxs) discount n of Inl e \<Rightarrow> Inl e
       | Inr sample \<Rightarrow> Inr (idxs, weights))"
    by (rule fetch_error_cases) (rule fetch_error_shape [OF assms(1)])
  have "sampled (sample_multistep_p np_sum st1 batch_size beta discount n g1) =
        sampled (sample_multistep_p np_sum st2 batch_size beta discount n g2)"
    unfolding sampled_sample_multistep_p assms(4)
      sample_idxs_p_view [OF assms(2) l(1)] weights_loop_view [OF assms(2) l(1)] f
      assms(2,3) l
    by (rule refl)
  with u show ?thesis by simp
qed

theorem sampling_deterministic_witness:
  "same_shape ex_prb_full ex_prb_other \<and> sum_tree ex_prb_full = sum_tree ex_prb_other \<and>
   min_tree ex_prb_full = min_tree ex_prb_other \<and> ex_draws = ex_draws \<and>
   ex_prb_full \<noteq> ex_prb_other \<and>
   sampled (sample_multistep_p True ex_prb_other 2 1 (1 / 2) 2 ex_draws) =
     Some (Inr ([0, 1], [1, 1 / 2]), sdrop 2 ex_draws)"
proof -
  have s: "same_shape ex_prb_full ex_prb_other"
    by (simp add: same_shape_def ex_prb_other_def len_def ex_prb_full_def ex_fetch_buffer_def
        replay_buffer.extend_def)
  have t: "sum_tree ex_prb_full = sum_tree ex_prb_other"
    "min_tree ex_prb_full = min_tree ex_prb_other"
    by (simp_all add: ex_prb_other_def)
  have ne: "ex_prb_full \<noteq> ex_prb_other"
  proof
    assume "ex_prb_full = ex_prb_other"
    then have "obses ex_prb_full = obses ex_prb_other" by simp
    then show False
      by (simp add: ex_prb_other_def ex_prb_full_def ex_fetch_buffer_def replay_buffer.extend_def)
  qed
  from sampling_deterministic [OF s t refl, where np_sum = True and batch_size = 2
      and beta = 1 and discount = "1 / 2" and n = 2 and ?g1.0 = ex_draws]
  have "sampled (sample_multistep_p True ex_prb_other 2 1 (1 / 2) 2 ex_draws) =
     Some (Inr ([0, 1], [1, 1 / 2]), sdrop 2 ex_draws)"
    by (simp add: ex_sample_multistep sampled_def)
  with s t ne show ?thesis by simp
qed

subsection \<open>The invariant of the prioritized buffer\<close>

text \<open>
  The hypotheses \<open>prb_ok\<close> and \<open>leaves_written\<close> of the theorems above hold for every
  buffer the class produces: \<^verbatim>\<open>__init__\<close> returns (its loop ends) and establishes them,
  and every \<^verbatim>\<open>add\<close> and \<^verbatim>\<open>update_priorities\<close> call keeps them, also a call that raises.
\<close>

lemma tree_capacity_loop_ge:
  assumes "tree_capacity_loop t c = Some T"
  shows "c \<le> T"
proof -
  let ?P = "\<lambda>(t :: nat) (c :: nat) (T :: nat). c \<le> T"
  show ?thesis
  proof (rule tree_capacity_loop.raw_induct [where P = ?P, OF _ assms])
    fix f :: "nat \<Rightarrow> nat \<Rightarrow> nat option" and t c T :: nat
    assume IH: "\<And>t c T. f t c = Some T \<Longrightarrow> c \<le> T"
      and body: "(if t < c then f (t * 2) c else Some t) = Some T"
    show "c \<le> T"
    proof (cases "t < c")
      case True
      with body IH show ?thesis by simp
    next
      case False
      with body have "t = T" by simp
      with False show ?thesis by (simp add: not_less)
    qed
  qed
qed

lemma tree_capacity_loop_total:
  "0 < t \<Longrightarrow> \<exists>T. tree_capacity_loop t c = Some T"
proof (induction "c - t" arbitrary: t rule: less_induct)
  case less
  show ?case
  proof (cases "t < c")
    case False
    then show ?thesis by (subst tree_capacity_loop.simps) simp
  next
    case True
    with less.prems have "c - t * 2 < c - t" by simp
    from less.hyps [OF this] less.prems obtain T where "tree_capacity_loop (t * 2) c = Some T"
      by auto
    with True show ?thesis by (subst tree_capacity_loop.simps) simp
  qed
qed

lemma init_prb_ok:
  assumes "0 < cap" and "0 \<le> al"
  shows "\<exists>st. PrioritizedReplayBuffer_init cap al o0 a0 r0 = Some (Inr st) \<and> prb_ok st \<and>
     max_priority st = 1 \<and> len st = 0"
proof -
  from tree_capacity_loop_total [of 1 cap] obtain T where T: "tree_capacity_loop 1 cap = Some T"
    by auto
  from tree_capacity_loop_ge [OF T] have le: "cap \<le> T" .
  let ?st = "replay_buffer.extend (ReplayBuffer_init cap o0 a0 r0)
      \<lparr> alpha = al, sum_tree = SegmentTree_init T 0,
        min_tree = SegmentTree_init T PInf, max_priority = 1 \<rparr>"
  have run: "PrioritizedReplayBuffer_init cap al o0 a0 r0 = Some (Inr ?st)"
    unfolding PrioritizedReplayBuffer_init_def T using assms(2) by simp
  have ok: "prb_ok ?st \<and> max_priority ?st = 1 \<and> len ?st = 0"
    using le assms(1)
    by (simp add: prb_ok_def buffer_ok_def ReplayBuffer_init_def SegmentTree_init_def
        replay_buffer.extend_def len_def list_all2_conv_all_nth leaf_sync_def)
  from run ok show ?thesis by blast
qed

lemma fold_apply_entry_keeps_ok:
  assumes "prb_ok st" and "\<forall>z \<in> set zs. entry_ok st z"
  shows "prb_ok (fold apply_entry zs st)"
  using assms
proof (induction zs arbitrary: st)
  case Nil
  then show ?case by simp
next
  case (Cons z zs)
  have "prb_ok (apply_entry z st)" using Cons.prems by (intro apply_entry_keeps_ok) simp_all
  moreover have "\<forall>z' \<in> set zs. entry_ok (apply_entry z st) z'" using Cons.prems by simp
  ultimately show ?case using Cons.IH by simp
qed

lemma update_priorities_keeps_ok:
  assumes "prb_ok st"
  shows "prb_ok (snd (update_priorities st idxs prios))"
proof -
  have "\<forall>z \<in> set (takeWhile (entry_ok st) (zip idxs prios)). entry_ok st z"
    by (auto dest: set_takeWhileD)
  from fold_apply_entry_keeps_ok [OF assms this] assms show ?thesis
    by (simp add: update_priorities_def update_loop_char)
qed

lemma exec_call_keeps_ok: "prb_ok st \<Longrightarrow> prb_ok (snd (exec_call c st))"
  by (cases c) (simp_all add: add_p_keeps_ok update_priorities_keeps_ok)

lemma run_calls_keeps_ok: "prb_ok st \<Longrightarrow> prb_ok (snd (run_calls st cs))"
  by (induction cs arbitrary: st) (simp_all add: exec_call_keeps_ok)

text \<open>The same for \<open>leaves_written\<close>.\<close>

lemma add_p_keeps_written:
  assumes "prb_ok st" and "leaves_written st"
  shows "leaves_written (snd (add_p st ob ac rw nob dn))"
proof -
  let ?j = "(idx st + 1) mod capacity st"
  let ?v = "max_priority st powr alpha st"
  have ok: "buffer_ok st" and le: "capacity st \<le> length (sum_tree st)"
    and mp: "0 < max_priority st"
    using assms(1) by (simp_all add: prb_ok_def)
  have cap: "0 < capacity st" "idx st < capacity st" using ok by (simp_all add: buffer_ok_def)
  have "?j < capacity st" using cap(1) by (rule mod_less_divisor)
  with le have j: "?j < length (sum_tree st)" by linarith
  have v: "0 < ?v" using mp by simp
  have jj: "?j = (if Suc (idx st) = capacity st then 0 else Suc (idx st))"
    using cap by (simp add: mod_Suc)
  have old: "\<And>i. (if full st then i < capacity st else 1 \<le> i \<and> i \<le> idx st)
      \<Longrightarrow> 0 < sum_tree st ! i"
    using assms(2) by (simp add: leaves_written_iff)
  have new: "\<And>i. (if full st \<or> ?j = 0 then i < capacity st else 1 \<le> i \<and> i \<le> ?j)
      \<Longrightarrow> 0 < (sum_tree st)[?j := ?v] ! i"
  proof -
    fix i assume i: "if full st \<or> ?j = 0 then i < capacity st else 1 \<le> i \<and> i \<le> ?j"
    show "0 < (sum_tree st)[?j := ?v] ! i"
    proof (cases "i = ?j")
      case True
      then show ?thesis using j v by simp
    next
      case False
      have "if full st then i < capacity st else 1 \<le> i \<and> i \<le> idx st"
        using i False cap unfolding jj by (auto split: if_splits)
      from old [OF this] False show ?thesis by simp
    qed
  qed
  show ?thesis
    unfolding leaves_written_iff using new
    by (simp add: add_p_ok [OF assms(1)] add_ok [OF ok])
qed

lemma apply_entry_keeps_written:
  assumes "leaves_written st" and "entry_ok st e"
  shows "leaves_written (apply_entry e st)"
proof -
  have v: "0 < snd e powr alpha st" using assms(2) by (simp add: entry_ok_def)
  have "\<And>i. 0 < sum_tree st ! i \<Longrightarrow> 0 < (sum_tree st)[nat (fst e) := snd e powr alpha st] ! i"
    using v by (metis nth_list_update_eq nth_list_update_neq list_update_beyond not_le_imp_less)
  then show ?thesis using assms(1)
    by (simp add: leaves_written_iff apply_entry_def)
qed

lemma fold_apply_entry_keeps_written:
  assumes "leaves_written st" and "\<forall>z \<in> set zs. entry_ok st z"
  shows "leaves_written (fold apply_entry zs st)"
  using assms
proof (induction zs arbitrary: st)
  case Nil
  then show ?case by simp
next
  case (Cons z zs)
  have "leaves_written (apply_entry z st)"
    using Cons.prems by (intro apply_entry_keeps_written) simp_all
  moreover have "\<forall>z' \<in> set zs. entry_ok (apply_entry z st) z'" using Cons.prems by simp
  ultimately show ?case using Cons.IH by simp
qed

lemma update_priorities_keeps_written:
  assumes "prb_ok st" and "leaves_written st"
  shows "leaves_written (snd (update_priorities st idxs prios))"
proof -
  have "\<forall>z \<in> set (takeWhile (entry_ok st) (zip idxs prios)). entry_ok st z"
    by (auto dest: set_takeWhileD)
  from fold_apply_entry_keeps_written [OF assms(2) this] assms show ?thesis
    by (simp add: update_priorities_def update_loop_char)
qed

lemma exec_call_keeps_written:
  "prb_ok st \<Longrightarrow> leaves_written st \<Longrightarrow> leaves_written (snd (exec_call c st))"
  by (cases c) (simp_all add: add_p_keeps_written update_priorities_keeps_written)

lemma run_calls_keeps_written:
  "prb_ok st \<Longrightarrow> leaves_written st \<Longrightarrow> leaves_written (snd (run_calls st cs))"
  by (induction cs arbitrary: st) (simp_all add: exec_call_keeps_ok exec_call_keeps_written)

lemma init_written:
  assumes "PrioritizedReplayBuffer_init cap al o0 a0 r0 = Some (Inr st)"
  shows "leaves_written st"
  using assms
  by (auto simp add: PrioritizedReplayBuffer_init_def leaves_written_def ReplayBuffer_init_def
      replay_buffer.extend_def split: if_splits option.splits)

end
